theory Spec2Isabelle
  imports
    Complex_Main
    "HOL-Library.Char_ord"
    "HOL-Library.List_Lexorder"
    "HOL-Library.Sublist"
    "HOL-Library.AList"
begin

section \<open>Values decoded from the input file\<close>

text \<open>
  The export routine of \<^verbatim>\<open>gui/program.py\<close> works on what \<^verbatim>\<open>json.load\<close> returns: \<^verbatim>\<open>None\<close>,
  booleans, integers, floats, strings, lists and dictionaries with string keys.
  A dictionary is kept as an association list in insertion order (Python dictionaries
  iterate in insertion order); lookups read the first binding of a key, and a decoded
  dictionary never has two bindings of one key.  A float is kept as a finite dyadic number,
  an infinity or a NaN; no definition below computes with floats.
  Strings are \<^typ>\<open>string\<close>, so a character is one of 256 code points, ordered by code point
  as Python orders them.
\<close>

datatype pyfloat = Finite int int | Infinity bool | NaN

datatype json =
    JNull
  | JBool bool
  | JInt int
  | JFloat pyfloat
  | JStr string
  | JArr "json list"
  | JObj "(string \<times> json) list"

type_synonym item = "(string \<times> json) list"

text \<open>The exceptions that the modelled code can raise.\<close>

datatype error =
    AttributeError
  | TypeError
  | ValueError string
  | HierarchyRequestErr

subsection \<open>String primitives of Python used by the code\<close>

text \<open>\<^verbatim>\<open>s.split(sep)\<close> for a one-character separator: never empty, one more piece than
  there are separators.\<close>

fun split_char :: "char \<Rightarrow> string \<Rightarrow> string list" where
  "split_char sep [] = [[]]"
| "split_char sep (c # cs) =
     (if c = sep then [] # split_char sep cs
      else (case split_char sep cs of
              [] \<Rightarrow> [[c]]
            | w # ws \<Rightarrow> (c # w) # ws))"

text \<open>\<^verbatim>\<open>d.get(key, default)\<close> on a dictionary.\<close>

definition dict_get :: "item \<Rightarrow> string \<Rightarrow> json \<Rightarrow> json" where
  "dict_get d k dflt = (case map_of d k of None \<Rightarrow> dflt | Some v \<Rightarrow> v)"

text \<open>\<^verbatim>\<open>value.get(part, "")\<close> on an arbitrary decoded value: only a dictionary has the
  attribute \<^verbatim>\<open>get\<close>; every other value raises \<^verbatim>\<open>AttributeError\<close>.\<close>

fun value_get :: "json \<Rightarrow> string \<Rightarrow> error + json" where
  "value_get (JObj d) part = Inr (dict_get d part (JStr []))"
| "value_get _ part = Inl AttributeError"

section \<open>Field extraction (\<^verbatim>\<open>perform_export\<close>, lines 341--356)\<close>

text \<open>The inner loop \<^verbatim>\<open>for part in field_parts: value = value.get(part, "")\<close>; an exception
  leaves the loop.\<close>

fun walk_parts :: "json \<Rightarrow> string list \<Rightarrow> error + json" where
  "walk_parts v [] = Inr v"
| "walk_parts v (part # parts) =
     (case value_get v part of
        Inl e \<Rightarrow> Inl e
      | Inr v' \<Rightarrow> walk_parts v' parts)"

text \<open>The \<^verbatim>\<open>try\<close> block around the loop: \<^verbatim>\<open>AttributeError\<close> and \<^verbatim>\<open>TypeError\<close> are caught
  and give the empty string, any other exception would propagate.\<close>

definition extract_field :: "json \<Rightarrow> string \<Rightarrow> error + json" where
  "extract_field rec field =
     (case walk_parts rec (split_char CHR ''.'' field) of
        Inr v \<Rightarrow> Inr v
      | Inl AttributeError \<Rightarrow> Inr (JStr [])
      | Inl TypeError \<Rightarrow> Inr (JStr [])
      | Inl e \<Rightarrow> Inl e)"

text \<open>What the specification calls resolving a path: every segment is looked up in a
  mapping, and the walk is undefined as soon as the current value is not a mapping or the
  segment is not one of its keys.\<close>

fun resolves :: "json \<Rightarrow> string list \<Rightarrow> json option" where
  "resolves v [] = Some v"
| "resolves (JObj d) (part # parts) =
     (case map_of d part of
        None \<Rightarrow> None
      | Some v' \<Rightarrow> resolves v' parts)"
| "resolves _ (part # parts) = None"

text \<open>The loop \<^verbatim>\<open>for field in selected_fields\<close> that fills \<^verbatim>\<open>extracted_item\<close>; the
  assignment \<^verbatim>\<open>extracted_item[field] = value\<close> replaces the value of a key that is already
  there and appends a new key otherwise.\<close>

fun extract_fields :: "json \<Rightarrow> string list \<Rightarrow> item \<Rightarrow> error + item" where
  "extract_fields rec [] extracted_item = Inr extracted_item"
| "extract_fields rec (field # fields) extracted_item =
     (case extract_field rec field of
        Inl e \<Rightarrow> Inl e
      | Inr v \<Rightarrow> extract_fields rec fields (AList.update field v extracted_item))"

definition extract_item :: "string list \<Rightarrow> json \<Rightarrow> error + item" where
  "extract_item selected_fields rec = extract_fields rec selected_fields []"

section \<open>Personal-information filter (\<^verbatim>\<open>contains_personal_info\<close>)\<close>

text \<open>\<^verbatim>\<open>term in value\<close> on two strings is substring containment, \<^const>\<open>sublist\<close>.
  The loop over the terms returns at the first hit.\<close>

fun any_term_in :: "string list \<Rightarrow> string \<Rightarrow> bool" where
  "any_term_in [] s = False"
| "any_term_in (t # ts) s = (if sublist t s then True else any_term_in ts s)"

text \<open>The function of \<^verbatim>\<open>gui/program.py\<close> (lines 458--477); the function of the same name in
  \<^verbatim>\<open>scripts/simplify_json.py\<close> (lines 90--122) has the same body.  The two loops over a
  dictionary's values and over a list's elements are the functions \<open>dict_values_loop\<close> and
  \<open>list_items_loop\<close>; each returns at the first hit, and falling out of a loop reaches the
  final \<^verbatim>\<open>return False\<close>.  In the dictionary loop a value that is neither a container nor
  a string is skipped.\<close>

fun contains_personal_info :: "json \<Rightarrow> string list \<Rightarrow> bool"
  and dict_values_loop :: "(string \<times> json) list \<Rightarrow> string list \<Rightarrow> bool"
  and list_items_loop :: "json list \<Rightarrow> string list \<Rightarrow> bool"
where
  "contains_personal_info (JObj d) terms = dict_values_loop d terms"
| "contains_personal_info (JArr xs) terms = list_items_loop xs terms"
| "contains_personal_info (JStr s) terms = any_term_in terms s"
| "contains_personal_info JNull terms = False"
| "contains_personal_info (JBool b) terms = False"
| "contains_personal_info (JInt i) terms = False"
| "contains_personal_info (JFloat f) terms = False"
| "dict_values_loop [] terms = False"
| "dict_values_loop ((key, JObj d) # rest) terms =
     (if contains_personal_info (JObj d) terms then True else dict_values_loop rest terms)"
| "dict_values_loop ((key, JArr xs) # rest) terms =
     (if contains_personal_info (JArr xs) terms then True else dict_values_loop rest terms)"
| "dict_values_loop ((key, JStr s) # rest) terms =
     (if any_term_in terms s then True else dict_values_loop rest terms)"
| "dict_values_loop ((key, JNull) # rest) terms = dict_values_loop rest terms"
| "dict_values_loop ((key, JBool b) # rest) terms = dict_values_loop rest terms"
| "dict_values_loop ((key, JInt i) # rest) terms = dict_values_loop rest terms"
| "dict_values_loop ((key, JFloat f) # rest) terms = dict_values_loop rest terms"
| "list_items_loop [] terms = False"
| "list_items_loop (x # xs) terms =
     (if contains_personal_info x terms then True else list_items_loop xs terms)"

text \<open>The string leaves of a decoded tree, as the specification describes the visit:
  a string is its own leaf, a sequence contributes the leaves of its elements and a mapping
  those of its values (never its keys); nothing else is a string leaf.\<close>

fun string_leaves :: "json \<Rightarrow> string list" where
  "string_leaves (JStr s) = [s]"
| "string_leaves (JArr xs) = concat (map string_leaves xs)"
| "string_leaves (JObj d) = concat (map (\<lambda>kv. string_leaves (snd kv)) d)"
| "string_leaves _ = []"

definition personal_terms :: "string list" where
  "personal_terms = [''Daniel'', ''Rosehill'', ''daniel'', ''rosehill'']"

section \<open>Per-record documents (\<^verbatim>\<open>perform_export\<close>, lines 365--383)\<close>

text \<open>\<^verbatim>\<open>s.replace(old, new)\<close> for a one-character \<^verbatim>\<open>old\<close>, and \<^verbatim>\<open>sep.join(xs)\<close>.\<close>

definition replace_char :: "char \<Rightarrow> string \<Rightarrow> string \<Rightarrow> string" where
  "replace_char old new s = concat (map (\<lambda>c. if c = old then new else [c]) s)"

fun join :: "string \<Rightarrow> string list \<Rightarrow> string" where
  "join sep [] = []"
| "join sep [x] = x"
| "join sep (x # y # ys) = x @ sep @ join sep (y # ys)"

text \<open>\<^verbatim>\<open>str.lower\<close> and \<^verbatim>\<open>str.isalnum\<close>, character by character.  Both are modelled on
  ASCII, where they are fixed by the letters and digits; beyond ASCII Python consults the
  Unicode tables, which the model leaves out (a character above 127 is unchanged by
  \<open>lower_char\<close> and not alphanumeric here).\<close>

definition is_ascii :: "char \<Rightarrow> bool" where
  "is_ascii c \<longleftrightarrow> (of_char c :: nat) < 128"

definition is_upper :: "char \<Rightarrow> bool" where
  "is_upper c \<longleftrightarrow> CHR ''A'' \<le> c \<and> c \<le> CHR ''Z''"

definition is_lower :: "char \<Rightarrow> bool" where
  "is_lower c \<longleftrightarrow> CHR ''a'' \<le> c \<and> c \<le> CHR ''z''"

definition is_digit :: "char \<Rightarrow> bool" where
  "is_digit c \<longleftrightarrow> CHR ''0'' \<le> c \<and> c \<le> CHR ''9''"

definition lower_char :: "char \<Rightarrow> char" where
  "lower_char c = (if is_upper c then char_of (of_char c + (32::nat)) else c)"

definition isalnum :: "char \<Rightarrow> bool" where
  "isalnum c \<longleftrightarrow> is_digit c \<or> is_upper c \<or> is_lower c"

text \<open>Lines 371--373: the file name made from a model name.\<close>

definition derive_filename :: "string \<Rightarrow> string" where
  "derive_filename model_name =
     (let filename = replace_char (CHR 0x5C) ''-''
                       (replace_char CHR ''/'' ''-''
                         (replace_char CHR '' '' ''-'' (map lower_char model_name)));
          filename = filter (\<lambda>c. isalnum c \<or> c \<in> set [CHR ''-'', CHR ''_'']) filename
      in filename @ ''.md'')"

text \<open>\<^verbatim>\<open>str(value)\<close>, and the formatting of a value inside an f-string: a string is itself;
  for every other value the text is Python's own rendering, a parameter \<open>str_of\<close> of the
  model.\<close>

definition py_str :: "(json \<Rightarrow> string) \<Rightarrow> json \<Rightarrow> string" where
  "py_str str_of v = (case v of JStr s \<Rightarrow> s | _ \<Rightarrow> str_of v)"

text \<open>\<^verbatim>\<open>posixpath.join\<close> of two components.\<close>

definition path_join :: "string \<Rightarrow> string \<Rightarrow> string" where
  "path_join a b =
     (if b \<noteq> [] \<and> hd b = CHR ''/'' then b
      else if a = [] \<or> last a = CHR ''/'' then a @ b
      else a @ ''/'' @ b)"

text \<open>One pass of the loop body up to the file written: the name and the text of the
  document of one projected item.  \<^verbatim>\<open>model_name.lower()\<close> exists only on a string.\<close>

definition individual_file :: "(json \<Rightarrow> string) \<Rightarrow> item \<Rightarrow> error + (string \<times> string)" where
  "individual_file str_of it =
     (let model_name = dict_get it ''name'' (JStr ''Unknown Model'');
          description = dict_get it ''info.meta.description'' (JStr []);
          system_prompt = dict_get it ''info.params.system'' (JStr [])
      in case model_name of
           JStr name \<Rightarrow>
             Inr (derive_filename name,
                  ''## '' @ name @ [CHR 0x0A, CHR 0x0A]
                  @ ''## Description'' @ [CHR 0x0A, CHR 0x0A]
                  @ py_str str_of description @ [CHR 0x0A, CHR 0x0A]
                  @ ''## System Prompt'' @ [CHR 0x0A, CHR 0x0A]
                  @ py_str str_of system_prompt @ [CHR 0x0A])
         | _ \<Rightarrow> Inl AttributeError)"

section \<open>Column order and headers\<close>

text \<open>The three tabular renderers each start with the same statements; the loops they
  share are written once.  \<open>collect_keys\<close> is
  \<^verbatim>\<open>for item in data: all_keys.update(item.keys())\<close>, and \<open>primary_loop\<close> is the loop over
  \<^verbatim>\<open>primary_fields\<close> that moves a field from the set to the end of the list.\<close>

definition primary_fields :: "string list" where
  "primary_fields = [''name'', ''info.meta.description'', ''info.params.system'']"

definition header_mapping :: "(string \<times> string) list" where
  "header_mapping =
     [(''name'', ''name''),
      (''info.meta.description'', ''description''),
      (''info.params.system'', ''system_prompt'')]"

text \<open>\<^verbatim>\<open>header_mapping.get(field, field)\<close>\<close>

definition header_of :: "string \<Rightarrow> string" where
  "header_of field = (case map_of header_mapping field of None \<Rightarrow> field | Some h \<Rightarrow> h)"

fun collect_keys :: "item list \<Rightarrow> string set \<Rightarrow> string set" where
  "collect_keys [] all_keys = all_keys"
| "collect_keys (it # rest) all_keys = collect_keys rest (all_keys \<union> set (map fst it))"

fun primary_loop :: "string list \<Rightarrow> string list \<times> string set \<Rightarrow> string list \<times> string set" where
  "primary_loop [] (fieldnames, all_keys) = (fieldnames, all_keys)"
| "primary_loop (field # fields) (fieldnames, all_keys) =
     (if field \<in> all_keys
      then primary_loop fields (fieldnames @ [field], all_keys - {field})
      else primary_loop fields (fieldnames, all_keys))"

section \<open>The document tree of the XML renderer\<close>

text \<open>A \<^verbatim>\<open>minidom\<close> node is an element with a tag and children, or a text node.  A text node
  has the node name \<^verbatim>\<open>#text\<close> and no children, and appending a child to it raises
  \<^verbatim>\<open>HierarchyRequestErr\<close>.  The document is a tree, so a node is known by its position: the
  list of child indices that leads to it from the \<^verbatim>\<open>model\<close> element.\<close>

datatype node = Element string "node list" | Text string

fun nodeName :: "node \<Rightarrow> string" where
  "nodeName (Element tag children) = tag"
| "nodeName (Text txt) = ''#text''"

fun childNodes :: "node \<Rightarrow> node list" where
  "childNodes (Element tag children) = children"
| "childNodes (Text txt) = []"

fun appendChild :: "node \<Rightarrow> node \<Rightarrow> error + node" where
  "appendChild (Element tag children) new_child = Inr (Element tag (children @ [new_child]))"
| "appendChild (Text txt) new_child = Inl HierarchyRequestErr"

text \<open>The search \<^verbatim>\<open>for child in current_elem.childNodes: if child.nodeName == part\<close>, which
  stops at the first child of that name: the index of that child.\<close>

fun find_child :: "string \<Rightarrow> node list \<Rightarrow> nat option" where
  "find_child part [] = None"
| "find_child part (child # children) =
     (if nodeName child = part then Some 0 else map_option Suc (find_child part children))"

fun replace_child :: "node \<Rightarrow> nat \<Rightarrow> node \<Rightarrow> node" where
  "replace_child (Element tag children) i child = Element tag (children[i := child])"
| "replace_child (Text txt) i child = Text txt"

section \<open>What a renderer writes\<close>

text \<open>A table as \<^verbatim>\<open>pandas\<close> holds it, column by column: the label of each column with one
  cell per row, \<open>None\<close> where the row's dictionary has no such key.\<close>

type_synonym dataframe = "(string \<times> json option list) list"

text \<open>The content of an output file is what the renderer hands to the library that
  encodes it: the rows given to \<^verbatim>\<open>csv.writer\<close>, the object given to \<^verbatim>\<open>json.dump\<close> or
  \<^verbatim>\<open>yaml.dump\<close>, the frame given to \<^verbatim>\<open>to_excel\<close>, the tree given to \<^verbatim>\<open>toprettyxml\<close>, or the
  text written.  The encodings themselves belong to those libraries.\<close>

datatype file_content =
    CsvFile "json list list"
  | JsonFile "item list"
  | ExcelFile dataframe
  | YamlFile "item list"
  | XmlFile node
  | TextFile string

type_synonym files = "string \<rightharpoonup> file_content"

section \<open>CSV renderer (\<^verbatim>\<open>export_to_csv\<close>, lines 479--527)\<close>

definition csv_fieldnames :: "item list \<Rightarrow> string list" where
  "csv_fieldnames data =
     (let all_keys = collect_keys data {};
          (fieldnames, all_keys) = primary_loop primary_fields ([], all_keys)
      in fieldnames @ sorted_list_of_set all_keys)"

definition csv_header_row :: "item list \<Rightarrow> string list" where
  "csv_header_row data = map header_of (csv_fieldnames data)"

text \<open>\<^verbatim>\<open>for field in fieldnames: row.append(item.get(field, ""))\<close>\<close>

definition csv_row :: "string list \<Rightarrow> item \<Rightarrow> json list" where
  "csv_row fieldnames it = map (\<lambda>field. dict_get it field (JStr [])) fieldnames"

text \<open>A renderer returns its outcome and the files as it leaves them.  The check for an
  empty list comes before the file is opened.\<close>

definition export_to_csv :: "item list \<Rightarrow> string \<Rightarrow> files \<Rightarrow> (error + unit) \<times> files" where
  "export_to_csv data output_path fs =
     (if data = [] then (Inl (ValueError ''No data to export''), fs)
      else (Inr (),
            fs(output_path \<mapsto>
               CsvFile (map JStr (csv_header_row data)
                        # map (csv_row (csv_fieldnames data)) data))))"

section \<open>Excel renderer (\<^verbatim>\<open>export_to_excel\<close>, lines 529--573)\<close>

text \<open>\<^verbatim>\<open>pd.DataFrame(data)\<close> for a list of dictionaries: one column for every key, in the
  order in which the keys are first met, and one row for every dictionary.\<close>

fun first_seen :: "string list \<Rightarrow> string list \<Rightarrow> string list" where
  "first_seen [] seen = seen"
| "first_seen (k # ks) seen = first_seen ks (if k \<in> set seen then seen else seen @ [k])"

definition DataFrame :: "item list \<Rightarrow> dataframe" where
  "DataFrame data =
     map (\<lambda>col. (col, map (\<lambda>it. map_of it col) data))
         (first_seen (concat (map (map fst) data)) [])"

definition df_columns :: "dataframe \<Rightarrow> string list" where
  "df_columns df = map fst df"

text \<open>\<^verbatim>\<open>df[cols]\<close>, the columns with the labels asked for, in the order asked, and
  \<^verbatim>\<open>df.rename(columns=d)\<close>.\<close>

definition df_select :: "dataframe \<Rightarrow> string list \<Rightarrow> dataframe" where
  "df_select df cols = concat (map (\<lambda>col. filter (\<lambda>c. fst c = col) df) cols)"

definition df_rename :: "(string \<times> string) list \<Rightarrow> dataframe \<Rightarrow> dataframe" where
  "df_rename d df =
     map (\<lambda>c. (case map_of d (fst c) of None \<Rightarrow> fst c | Some label \<Rightarrow> label, snd c)) df"

definition excel_fieldnames :: "item list \<Rightarrow> string list" where
  "excel_fieldnames data =
     (let all_keys = collect_keys data {};
          (fieldnames, all_keys) = primary_loop primary_fields ([], all_keys)
      in fieldnames @ sorted_list_of_set all_keys)"

text \<open>The comprehension \<^verbatim>\<open>[col for col in fieldnames if col in df.columns]\<close>.\<close>

definition excel_ordered_columns :: "item list \<Rightarrow> string list" where
  "excel_ordered_columns data =
     (let fieldnames = excel_fieldnames data;
          df = DataFrame data
      in filter (\<lambda>col. col \<in> set (df_columns df)) fieldnames)"

definition excel_frame :: "item list \<Rightarrow> dataframe" where
  "excel_frame data =
     (let df = DataFrame data;
          ordered_columns = excel_ordered_columns data;
          df = df_select df ordered_columns;
          rename_dict = map (\<lambda>col. (col, header_of col)) (df_columns df)
      in df_rename rename_dict df)"

definition export_to_excel :: "item list \<Rightarrow> string \<Rightarrow> files \<Rightarrow> (error + unit) \<times> files" where
  "export_to_excel data output_path fs =
     (if data = [] then (Inl (ValueError ''No data to export''), fs)
      else (Inr (), fs(output_path \<mapsto> ExcelFile (excel_frame data))))"

section \<open>JSON and YAML renderers (lines 575--583)\<close>

definition export_to_json :: "item list \<Rightarrow> string \<Rightarrow> files \<Rightarrow> (error + unit) \<times> files" where
  "export_to_json data output_path fs = (Inr (), fs(output_path \<mapsto> JsonFile data))"

definition export_to_yaml :: "item list \<Rightarrow> string \<Rightarrow> files \<Rightarrow> (error + unit) \<times> files" where
  "export_to_yaml data output_path fs = (Inr (), fs(output_path \<mapsto> YamlFile data))"

section \<open>XML renderer (\<^verbatim>\<open>export_to_xml\<close>, lines 585--629)\<close>

text \<open>The text of a leaf: \<^verbatim>\<open>str(value) if value is not None else ""\<close>.\<close>

definition text_of :: "(json \<Rightarrow> string) \<Rightarrow> json \<Rightarrow> string" where
  "text_of str_of v = (if v = JNull then [] else py_str str_of v)"

text \<open>
  The loop over \<^verbatim>\<open>parts[:-1]\<close> moves \<^verbatim>\<open>current_elem\<close> from a node to one of its children
  (the first child of that name, or a new last child) and the statements after the loop
  append \<^verbatim>\<open>field_elem\<close> to the node reached.  On the tree this is one update along a path:
  \<open>add_nested parts field_elem current_elem\<close> is \<^verbatim>\<open>current_elem\<close> after the loop has run
  over \<open>parts\<close> from there and the field element has been appended.
\<close>

fun add_nested :: "string list \<Rightarrow> node \<Rightarrow> node \<Rightarrow> error + node" where
  "add_nested [] field_elem current_elem = appendChild current_elem field_elem"
| "add_nested (part # parts) field_elem current_elem =
     (case find_child part (childNodes current_elem) of
        None \<Rightarrow>
          (case add_nested parts field_elem (Element part []) of
             Inl e \<Rightarrow> Inl e
           | Inr new_elem \<Rightarrow> appendChild current_elem new_elem)
      | Some i \<Rightarrow>
          (case add_nested parts field_elem (childNodes current_elem ! i) of
             Inl e \<Rightarrow> Inl e
           | Inr existing \<Rightarrow> Inr (replace_child current_elem i existing)))"

text \<open>The body of \<^verbatim>\<open>for key, value in item.items()\<close>.\<close>

definition add_field :: "(json \<Rightarrow> string) \<Rightarrow> node \<Rightarrow> string \<times> json \<Rightarrow> error + node" where
  "add_field str_of model_elem kv =
     (let key = fst kv; v = snd kv in
      if CHR ''.'' \<in> set key
      then (let parts = split_char CHR ''.'' key
            in add_nested (butlast parts)
                 (Element (last parts) [Text (text_of str_of v)]) model_elem)
      else appendChild model_elem (Element key [Text (text_of str_of v)]))"

fun add_fields :: "(json \<Rightarrow> string) \<Rightarrow> node \<Rightarrow> item \<Rightarrow> error + node" where
  "add_fields str_of model_elem [] = Inr model_elem"
| "add_fields str_of model_elem (kv # rest) =
     (case add_field str_of model_elem kv of
        Inl e \<Rightarrow> Inl e
      | Inr model_elem' \<Rightarrow> add_fields str_of model_elem' rest)"

definition model_element :: "(json \<Rightarrow> string) \<Rightarrow> item \<Rightarrow> error + node" where
  "model_element str_of it = add_fields str_of (Element ''model'' []) it"

text \<open>The loop \<^verbatim>\<open>for item in data\<close>: the children of the root element so far.\<close>

fun model_elements :: "(json \<Rightarrow> string) \<Rightarrow> item list \<Rightarrow> node list \<Rightarrow> error + node list" where
  "model_elements str_of [] children = Inr children"
| "model_elements str_of (it # rest) children =
     (case model_element str_of it of
        Inl e \<Rightarrow> Inl e
      | Inr model_elem \<Rightarrow> model_elements str_of rest (children @ [model_elem]))"

definition export_to_xml ::
  "(json \<Rightarrow> string) \<Rightarrow> item list \<Rightarrow> string \<Rightarrow> files \<Rightarrow> (error + unit) \<times> files" where
  "export_to_xml str_of data output_path fs =
     (case model_elements str_of data [] of
        Inl e \<Rightarrow> (Inl e, fs)
      | Inr children \<Rightarrow> (Inr (), fs(output_path \<mapsto> XmlFile (Element ''models'' children))))"

section \<open>Markdown renderer (\<^verbatim>\<open>export_to_markdown\<close>, lines 631--687)\<close>

definition markdown_headers :: "item list \<Rightarrow> string list" where
  "markdown_headers data =
     (let all_keys = collect_keys data {};
          (headers, all_keys) = primary_loop primary_fields ([], all_keys)
      in headers @ sorted_list_of_set all_keys)"

definition markdown_header_row :: "item list \<Rightarrow> string list" where
  "markdown_header_row data = map header_of (markdown_headers data)"

text \<open>One cell: pipes and newlines of a string are escaped, then the value is turned into
  text.\<close>

definition markdown_cell :: "(json \<Rightarrow> string) \<Rightarrow> json \<Rightarrow> string" where
  "markdown_cell str_of v =
     (let v = (case v of
                 JStr s \<Rightarrow>
                   JStr (replace_char (CHR 0x0A) ''<br>''
                          (replace_char CHR ''|'' [CHR 0x5C, CHR ''|''] s))
               | _ \<Rightarrow> v)
      in if v \<noteq> JNull then py_str str_of v else [])"

definition markdown_line :: "string list \<Rightarrow> string" where
  "markdown_line cells = ''| '' @ join '' | '' cells @ '' |'' @ [CHR 0x0A]"

definition markdown_row :: "(json \<Rightarrow> string) \<Rightarrow> string list \<Rightarrow> item \<Rightarrow> string" where
  "markdown_row str_of headers it =
     markdown_line (map (\<lambda>header. markdown_cell str_of (dict_get it header (JStr []))) headers)"

text \<open>\<open>now\<close> is the text of \<^verbatim>\<open>datetime.now().strftime(...)\<close> at the time of writing.\<close>

definition export_to_markdown ::
  "(json \<Rightarrow> string) \<Rightarrow> string \<Rightarrow> item list \<Rightarrow> string \<Rightarrow> files \<Rightarrow> (error + unit) \<times> files" where
  "export_to_markdown str_of now data output_path fs =
     (if data = [] then (Inl (ValueError ''No data to export''), fs)
      else (let headers = markdown_headers data in
        (Inr (),
         fs(output_path \<mapsto> TextFile
              (''# OpenWebUI Model Export'' @ [CHR 0x0A, CHR 0x0A]
               @ ''Generated on: '' @ now @ [CHR 0x0A, CHR 0x0A]
               @ markdown_line (markdown_header_row data)
               @ markdown_line (replicate (length headers) ''---'')
               @ concat (map (markdown_row str_of headers) data))))))"

section \<open>The export run (\<^verbatim>\<open>perform_export\<close>, lines 297--451)\<close>

datatype fmt = Csv | Json | Excel | Yaml | Xml | Markdown

datatype export_format = Single fmt | All

text \<open>What the run reads from the window and the clock: the checked fields, the filter
  box, the chosen format, the output directory, and the two time stamps.\<close>

record config =
  selected_fields :: "string list"
  filter_personal :: bool
  chosen_format :: export_format
  output_dir :: string
  timestamp :: string
  generated_on :: string

text \<open>The state that the run changes: the percentages passed to \<^verbatim>\<open>update_status\<close>, oldest
  first (the messages are left out), and the files written.  Percentages are exact
  rationals; Python computes them in floating point.\<close>

record run_state =
  progress :: "rat list"
  disk :: files

definition update_status :: "rat \<Rightarrow> run_state \<Rightarrow> run_state" where
  "update_status p st = st\<lparr>progress := progress st @ [p]\<rparr>"

definition format_ext :: "fmt \<Rightarrow> string" where
  "format_ext f =
     (case f of Csv \<Rightarrow> ''.csv'' | Json \<Rightarrow> ''.json'' | Excel \<Rightarrow> ''.xlsx''
              | Yaml \<Rightarrow> ''.yaml'' | Xml \<Rightarrow> ''.xml'' | Markdown \<Rightarrow> ''.md'')"

definition type_name :: "json \<Rightarrow> string" where
  "type_name v =
     (case v of JNull \<Rightarrow> ''NoneType'' | JBool b \<Rightarrow> ''bool'' | JInt i \<Rightarrow> ''int''
              | JFloat f \<Rightarrow> ''float'' | JStr s \<Rightarrow> ''str'' | JArr xs \<Rightarrow> ''list''
              | JObj d \<Rightarrow> ''dict'')"

text \<open>Lines 329--332: the filter loop, at index \<open>i\<close> of \<open>total_items\<close>.\<close>

fun filter_loop ::
  "json list \<Rightarrow> nat \<Rightarrow> nat \<Rightarrow> json list \<times> run_state \<Rightarrow> json list \<times> run_state" where
  "filter_loop [] i total_items (filtered_data, st) = (filtered_data, st)"
| "filter_loop (rec # rest) i total_items (filtered_data, st) =
     filter_loop rest (i + 1) total_items
       (if \<not> contains_personal_info rec personal_terms
        then filtered_data @ [rec] else filtered_data,
        update_status (10 + of_nat (i + 1) * 20 / of_nat total_items) st)"

text \<open>Lines 341--357: the extraction loop.\<close>

fun extract_loop ::
  "string list \<Rightarrow> json list \<Rightarrow> nat \<Rightarrow> nat \<Rightarrow> item list \<times> run_state
     \<Rightarrow> (error + item list) \<times> run_state" where
  "extract_loop selected [] i total_items (extracted_data, st) = (Inr extracted_data, st)"
| "extract_loop selected (rec # rest) i total_items (extracted_data, st) =
     (case extract_item selected rec of
        Inl e \<Rightarrow> (Inl e, st)
      | Inr extracted_item \<Rightarrow>
          extract_loop selected rest (i + 1) total_items
            (extracted_data @ [extracted_item],
             update_status (30 + of_nat (i + 1) * 40 / of_nat total_items) st))"

text \<open>Lines 365--383: one document per projected item.\<close>

fun documents_loop ::
  "(json \<Rightarrow> string) \<Rightarrow> string \<Rightarrow> item list \<Rightarrow> nat \<Rightarrow> nat \<Rightarrow> run_state
     \<Rightarrow> (error + unit) \<times> run_state" where
  "documents_loop str_of dir [] i total_items st = (Inr (), st)"
| "documents_loop str_of dir (it # rest) i total_items st =
     (case individual_file str_of it of
        Inl e \<Rightarrow> (Inl e, st)
      | Inr (filename, body) \<Rightarrow>
          documents_loop str_of dir rest (i + 1) total_items
            (update_status (65 + of_nat (i + 1) * 5 / of_nat total_items)
               (st\<lparr>disk := (disk st)(path_join dir filename \<mapsto> TextFile body)\<rparr>)))"

text \<open>The chain of \<^verbatim>\<open>if fmt == ...\<close> that calls one renderer.\<close>

definition export_to ::
  "(json \<Rightarrow> string) \<Rightarrow> config \<Rightarrow> fmt \<Rightarrow> item list \<Rightarrow> string \<Rightarrow> files
     \<Rightarrow> (error + unit) \<times> files" where
  "export_to str_of cfg f data output_path fs =
     (case f of
        Csv \<Rightarrow> export_to_csv data output_path fs
      | Json \<Rightarrow> export_to_json data output_path fs
      | Excel \<Rightarrow> export_to_excel data output_path fs
      | Yaml \<Rightarrow> export_to_yaml data output_path fs
      | Xml \<Rightarrow> export_to_xml str_of data output_path fs
      | Markdown \<Rightarrow> export_to_markdown str_of (generated_on cfg) data output_path fs)"

definition output_path_of :: "config \<Rightarrow> fmt \<Rightarrow> string" where
  "output_path_of cfg f = path_join (output_dir cfg) (''export_'' @ timestamp cfg @ format_ext f)"

text \<open>Lines 393--413: the loop over all six formats.\<close>

fun formats_loop ::
  "(json \<Rightarrow> string) \<Rightarrow> config \<Rightarrow> item list \<Rightarrow> fmt list \<Rightarrow> nat \<Rightarrow> nat \<Rightarrow> run_state
     \<Rightarrow> (error + unit) \<times> run_state" where
  "formats_loop str_of cfg data [] i total_formats st = (Inr (), st)"
| "formats_loop str_of cfg data (f # rest) i total_formats st =
     (let progress_base = 70 + of_nat i * (30 / of_nat total_formats);
          progress_next = 70 + of_nat (i + 1) * (30 / of_nat total_formats);
          st = update_status progress_base st
      in case export_to str_of cfg f data (output_path_of cfg f) (disk st) of
           (Inl e, fs) \<Rightarrow> (Inl e, st\<lparr>disk := fs\<rparr>)
         | (Inr u, fs) \<Rightarrow>
             formats_loop str_of cfg data rest (i + 1) total_formats
               (update_status progress_next (st\<lparr>disk := fs\<rparr>)))"

text \<open>The phases of the \<^verbatim>\<open>try\<close> block, in the order of the source.  Each takes the state
  and returns its outcome with the state as it leaves it, so that an exception keeps the
  updates and files that came before it.\<close>

text \<open>Lines 315--320: \<open>loaded\<close> is the outcome of opening and decoding the input file.\<close>

definition load_phase :: "error + json \<Rightarrow> run_state \<Rightarrow> (error + json list) \<times> run_state" where
  "load_phase loaded st =
     (let st = update_status 5 st in
      case loaded of
        Inl e \<Rightarrow> (Inl e, st)
      | Inr data \<Rightarrow>
          (case data of
             JArr records \<Rightarrow> (Inr records, st)
           | _ \<Rightarrow> (Inl (ValueError (''Expected a JSON array, but got '' @ type_name data)), st)))"

text \<open>Lines 323--334.\<close>

definition filter_phase :: "config \<Rightarrow> json list \<Rightarrow> run_state \<Rightarrow> json list \<times> run_state" where
  "filter_phase cfg data st =
     (if filter_personal cfg
      then filter_loop data 0 (length data) ([], update_status 10 st)
      else (data, st))"

text \<open>Lines 337--357.\<close>

definition extract_phase ::
  "config \<Rightarrow> json list \<Rightarrow> run_state \<Rightarrow> (error + item list) \<times> run_state" where
  "extract_phase cfg data st =
     extract_loop (selected_fields cfg) data 0 (length data) ([], update_status 30 st)"

text \<open>Lines 360--383.\<close>

definition documents_phase ::
  "(json \<Rightarrow> string) \<Rightarrow> config \<Rightarrow> item list \<Rightarrow> run_state \<Rightarrow> (error + unit) \<times> run_state" where
  "documents_phase str_of cfg extracted_data st =
     (let st = update_status 65 st;
          individual_configs_dir =
            path_join (path_join (output_dir cfg) (''export_'' @ timestamp cfg))
              ''individual-configs''
      in documents_loop str_of individual_configs_dir extracted_data 0
           (length extracted_data) st)"

text \<open>Lines 386--446.\<close>

definition render_phase ::
  "(json \<Rightarrow> string) \<Rightarrow> config \<Rightarrow> item list \<Rightarrow> run_state \<Rightarrow> (error + unit) \<times> run_state" where
  "render_phase str_of cfg extracted_data st =
     (case chosen_format cfg of
        All \<Rightarrow>
          (case formats_loop str_of cfg extracted_data
                  [Csv, Json, Excel, Yaml, Xml, Markdown] 0 6 st of
             (Inl e, st) \<Rightarrow> (Inl e, st)
           | (Inr u, st) \<Rightarrow> (Inr (), update_status 100 st))
      | Single f \<Rightarrow>
          (let st = update_status 70 st in
           case export_to str_of cfg f extracted_data (output_path_of cfg f) (disk st) of
             (Inl e, fs) \<Rightarrow> (Inl e, st\<lparr>disk := fs\<rparr>)
           | (Inr u, fs) \<Rightarrow> (Inr (), update_status 100 (st\<lparr>disk := fs\<rparr>))))"

definition perform_export_try ::
  "(json \<Rightarrow> string) \<Rightarrow> config \<Rightarrow> error + json \<Rightarrow> run_state \<Rightarrow> (error + unit) \<times> run_state" where
  "perform_export_try str_of cfg loaded st =
     (case load_phase loaded st of
        (Inl e, st) \<Rightarrow> (Inl e, st)
      | (Inr data, st) \<Rightarrow>
          (case filter_phase cfg data st of
             (data, st) \<Rightarrow>
               (case extract_phase cfg data st of
                  (Inl e, st) \<Rightarrow> (Inl e, st)
                | (Inr extracted_data, st) \<Rightarrow>
                    (case documents_phase str_of cfg extracted_data st of
                       (Inl e, st) \<Rightarrow> (Inl e, st)
                     | (Inr u, st) \<Rightarrow> render_phase str_of cfg extracted_data st))))"

text \<open>The whole method: the handler of \<^verbatim>\<open>except Exception\<close> reports the error with the
  percentage 0.\<close>

datatype outcome = Succeeded | Failed error

definition perform_export ::
  "(json \<Rightarrow> string) \<Rightarrow> config \<Rightarrow> error + json \<Rightarrow> run_state \<Rightarrow> outcome \<times> run_state" where
  "perform_export str_of cfg loaded st =
     (case perform_export_try str_of cfg loaded st of
        (Inr u, st) \<Rightarrow> (Succeeded, st)
      | (Inl e, st) \<Rightarrow> (Failed e, update_status 0 st))"

text \<open>A run starts with no update emitted.\<close>

definition start :: "files \<Rightarrow> run_state" where
  "start fs = \<lparr>progress = [], disk = fs\<rparr>"

section \<open>The catalogue of fields\<close>

text \<open>The fields offered for selection (\<^verbatim>\<open>field_structure\<close>, lines 43--73), category by
  category; a run's selection is taken from them.\<close>

definition field_catalog :: "string list" where
  "field_catalog =
     [''name'', ''info.meta.description'', ''info.params.system'',
      ''id'', ''object'', ''created'', ''owned_by'',
      ''info.id'', ''info.base_model_id'', ''info.name'', ''info.is_active'',
      ''info.created_at'', ''info.updated_at'',
      ''info.meta.profile_image_url'', ''info.meta.capabilities.usage'',
      ''info.meta.capabilities.vision'', ''info.meta.capabilities.citations'',
      ''info.meta.tags'',
      ''preset'', ''actions'']"

section \<open>The specification's reading of the file-name rule\<close>

text \<open>In the specification's words: the name is lowercased, a space or a path separator
  becomes \<^verbatim>\<open>-\<close>, and only the characters of \<^verbatim>\<open>[A-Za-z0-9_-]\<close> are kept.\<close>

definition dash_or_lower :: "char \<Rightarrow> char" where
  "dash_or_lower c =
     (if c \<in> set [CHR '' '', CHR ''/'', CHR 0x5C] then CHR ''-'' else lower_char c)"

definition allowed :: "char \<Rightarrow> bool" where
  "allowed c \<longleftrightarrow> is_digit c \<or> is_upper c \<or> is_lower c \<or> c = CHR ''-'' \<or> c = CHR ''_''"

section \<open>The union of the items' key sets\<close>

text \<open>Step 1 of the specification's ordering algorithm.\<close>

definition key_union :: "item list \<Rightarrow> string set" where
  "key_union data = \<Union> (set (map (\<lambda>it. set (map fst it)) data))"

section \<open>Functions used to state the properties of a run\<close>

text \<open>The percentages of a counting loop: \<open>base + (k + 1) * width / n\<close> for the indices
  \<open>k\<close> from \<open>i\<close> on, \<open>len\<close> of them.\<close>

definition ramp :: "rat \<Rightarrow> rat \<Rightarrow> nat \<Rightarrow> nat \<Rightarrow> nat \<Rightarrow> rat list" where
  "ramp base width n i len =
     map (\<lambda>k. base + of_nat (k + 1) * width / of_nat n) [i..<i + len]"


definition project :: "string list \<Rightarrow> json \<Rightarrow> item" where
  "project selected rec = (case extract_item selected rec of Inr it \<Rightarrow> it | Inl e \<Rightarrow> [])"

text \<open>\<open>appends lo hi st st'\<close>: from \<open>st\<close> to \<open>st'\<close> the run has emitted a non-decreasing
  sequence of percentages between \<open>lo\<close> and \<open>hi\<close>, and nothing else has happened to the
  list of updates.\<close>

definition appends :: "rat \<Rightarrow> rat \<Rightarrow> run_state \<Rightarrow> run_state \<Rightarrow> bool" where
  "appends lo hi st st' \<longleftrightarrow>
     (\<exists>xs. progress st' = progress st @ xs \<and> sorted xs \<and> (\<forall>x\<in>set xs. lo \<le> x \<and> x \<le> hi))"

section \<open>Reading the document tree\<close>

text \<open>\<open>descend n path\<close> follows, from \<open>n\<close>, the first child named by each segment of
  \<open>path\<close> in turn; it is the element that the path names, when there is one.\<close>

fun descend :: "node \<Rightarrow> string list \<Rightarrow> node option" where
  "descend n [] = Some n"
| "descend n (part # parts) =
     (case find_child part (childNodes n) of
        None \<Rightarrow> None
      | Some i \<Rightarrow> descend (childNodes n ! i) parts)"

text \<open>A leaf element for a field: its tag is the last segment of the key and its first
  child is the text of the value.\<close>

fun is_leaf_of :: "string \<Rightarrow> string \<Rightarrow> node \<Rightarrow> bool" where
  "is_leaf_of tag txt (Element tag' (Text txt' # others)) \<longleftrightarrow> tag' = tag \<and> txt' = txt"
| "is_leaf_of tag txt _ \<longleftrightarrow> False"

text \<open>\<open>has_leaf n [a, b] c txt\<close>: under \<open>n\<close> there are the nested elements
  \<^verbatim>\<open>a > b > c\<close>, and \<^verbatim>\<open>c\<close> holds the text \<open>txt\<close>.\<close>

fun has_leaf :: "node \<Rightarrow> string list \<Rightarrow> string \<Rightarrow> string \<Rightarrow> bool" where
  "has_leaf n [] tag txt \<longleftrightarrow> list_ex (is_leaf_of tag txt) (childNodes n)"
| "has_leaf n (part # parts) tag txt \<longleftrightarrow>
     (case find_child part (childNodes n) of
        None \<Rightarrow> False
      | Some i \<Rightarrow> has_leaf (childNodes n ! i) parts tag txt)"

text \<open>An element that holds nothing but its text.\<close>

fun pure_leaf :: "node \<Rightarrow> bool" where
  "pure_leaf (Element tag [Text txt]) \<longleftrightarrow> True"
| "pure_leaf _ \<longleftrightarrow> False"

text \<open>No nesting level holds two elements of one tag that both serve as intermediate
  elements: among the children of any node, a child that is not the first of its name is an
  element with nothing but its text.\<close>

fun no_duplicates :: "node \<Rightarrow> bool" where
  "no_duplicates (Text txt) \<longleftrightarrow> True"
| "no_duplicates (Element tag children) \<longleftrightarrow>
     list_all no_duplicates children
     \<and> list_all (\<lambda>i. find_child (nodeName (children ! i)) children = Some i
                    \<or> pure_leaf (children ! i))
         [0..<length children]"

section \<open>Example inputs\<close>

text \<open>Three records, a configuration and the projections of the two records that survive
  the filter; then one projected item with nested keys and the tree it is rendered to.\<close>

definition daniel_bot :: json where
  "daniel_bot =
     JObj [(''name'', JStr ''Daniel's Bot''),
           (''info'', JObj [(''meta'', JObj [(''description'', JStr ''d1'')]),
                            (''params'', JObj [(''system'', JStr ''s1'')])])]"

definition alpha_bot :: json where
  "alpha_bot =
     JObj [(''id'', JStr ''alpha''),
           (''name'', JStr ''Alpha''),
           (''info'', JObj [(''meta'', JObj [(''description'', JStr ''first'')])])]"

definition beta_bot :: json where
  "beta_bot = JObj [(''name'', JStr ''Beta''), (''info'', JStr ''none'')]"

definition example_config :: config where
  "example_config =
     \<lparr>selected_fields = [''name'', ''info.meta.description''],
      filter_personal = True,
      chosen_format = Single Csv,
      output_dir = ''out'',
      timestamp = ''250101_120000'',
      generated_on = ''2025-01-01 12:00:00''\<rparr>"


definition example_item :: item where
  "example_item =
     [(''name'', JStr ''Alpha''),
      (''info.meta.description'', JStr ''first''),
      (''info.meta.tags'', JNull),
      (''info.id'', JInt 4)]"

definition example_model :: node where
  "example_model =
     Element ''model''
       [Element ''name'' [Text ''Alpha''],
        Element ''info''
          [Element ''meta''
             [Element ''description'' [Text ''first''],
              Element ''tags'' [Text []]],
           Element ''id'' [Text ''4'']]]"

section \<open>Path resolution\<close>

lemma split_char_not_Nil: "split_char sep s \<noteq> []"
  by (induction s) (auto split: list.splits)

lemma walk_parts_empty_string:
  "parts \<noteq> [] \<Longrightarrow> walk_parts (JStr []) parts = Inl AttributeError"
  by (cases parts) auto

lemma walk_parts_no_other_error:
  "walk_parts v parts = Inl e \<Longrightarrow> e = AttributeError"
proof (induction parts arbitrary: v)
  case Nil
  then show ?case by simp
next
  case (Cons part parts)
  then show ?case
    by (cases v) (auto split: sum.splits)
qed

lemma walk_parts_resolved:
  "resolves v parts = Some w \<Longrightarrow> walk_parts v parts = Inr w"
proof (induction v parts rule: resolves.induct)
  case (2 d part parts)
  then show ?case
    by (auto simp: dict_get_def split: option.splits)
qed auto

lemma walk_parts_unresolved:
  "resolves v parts = None \<Longrightarrow>
     walk_parts v parts = Inl AttributeError \<or> walk_parts v parts = Inr (JStr [])"
proof (induction v parts rule: resolves.induct)
  case (2 d part parts)
  show ?case
  proof (cases "map_of d part")
    case None
    then show ?thesis
      using walk_parts_empty_string [of parts]
      by (cases "parts = []") (auto simp: dict_get_def)
  next
    case (Some v')
    with 2 show ?thesis
      by (auto simp: dict_get_def)
  qed
qed auto

text \<open>
  Claim C3.  For every decoded value and every dotted field path the extraction step
  returns a value (it never raises); the value is the empty string whenever some segment of
  the path is absent or is looked up in something that is not a mapping, and it is the
  value reached, unchanged, when every segment resolves.
\<close>

theorem extract_field_total:
  "(\<exists>v. extract_field rec field = Inr v)
   \<and> (resolves rec (split_char CHR ''.'' field) = None
        \<longrightarrow> extract_field rec field = Inr (JStr []))
   \<and> (\<forall>w. resolves rec (split_char CHR ''.'' field) = Some w
        \<longrightarrow> extract_field rec field = Inr w)"
proof (cases "resolves rec (split_char CHR ''.'' field)")
  case None
  from walk_parts_unresolved [OF None]
  have "extract_field rec field = Inr (JStr [])"
    by (auto simp: extract_field_def)
  with None show ?thesis by simp
next
  case (Some w)
  from walk_parts_resolved [OF Some]
  have "extract_field rec field = Inr w"
    by (simp add: extract_field_def)
  with Some show ?thesis by simp
qed

text \<open>The theorem at the record of the specification's scenario: the description path
  resolves, a path through the absent key \<^verbatim>\<open>tags\<close> does not.\<close>

theorem extract_field_total_witness:
  "resolves (JObj [(''name'', JStr ''Bot''),
                   (''info'', JObj [(''meta'', JObj [(''description'', JStr ''d1'')])])])
            (split_char CHR ''.'' ''info.meta.description'') = Some (JStr ''d1'')
   \<and> extract_field (JObj [(''name'', JStr ''Bot''),
                   (''info'', JObj [(''meta'', JObj [(''description'', JStr ''d1'')])])])
            ''info.meta.description'' = Inr (JStr ''d1'')
   \<and> resolves (JObj [(''name'', JStr ''Bot''),
                   (''info'', JObj [(''meta'', JObj [(''description'', JStr ''d1'')])])])
            (split_char CHR ''.'' ''name.tags'') = None
   \<and> extract_field (JObj [(''name'', JStr ''Bot''),
                   (''info'', JObj [(''meta'', JObj [(''description'', JStr ''d1'')])])])
            ''name.tags'' = Inr (JStr [])"
  using extract_field_total
    [of "JObj [(''name'', JStr ''Bot''),
               (''info'', JObj [(''meta'', JObj [(''description'', JStr ''d1'')])])]"
        "''info.meta.description''"]
    extract_field_total
    [of "JObj [(''name'', JStr ''Bot''),
               (''info'', JObj [(''meta'', JObj [(''description'', JStr ''d1'')])])]"
        "''name.tags''"]
  by simp

section \<open>The personal-information predicate\<close>

lemma any_term_in_iff: "any_term_in terms s \<longleftrightarrow> (\<exists>t\<in>set terms. sublist t s)"
  by (induction terms) auto

lemma contains_personal_info_leaves:
  "contains_personal_info obj terms
     \<longleftrightarrow> (\<exists>s\<in>set (string_leaves obj). \<exists>t\<in>set terms. sublist t s)"
  "dict_values_loop d terms
     \<longleftrightarrow> (\<exists>s\<in>set (string_leaves (JObj d)). \<exists>t\<in>set terms. sublist t s)"
  "list_items_loop xs terms
     \<longleftrightarrow> (\<exists>s\<in>set (string_leaves (JArr xs)). \<exists>t\<in>set terms. sublist t s)"
proof (induction obj terms and d terms and xs terms
    rule: contains_personal_info_dict_values_loop_list_items_loop.induct)
  case (9 key d rest terms)
  then show ?case by (simp add: bex_Un)
next
  case (10 key xs rest terms)
  then show ?case by (simp add: bex_Un)
next
  case (11 key s rest terms)
  then show ?case by (simp add: any_term_in_iff)
next
  case (17 x xs terms)
  then show ?case by (simp add: bex_Un)
qed (simp_all add: any_term_in_iff)

text \<open>
  Claim C4.  \<^verbatim>\<open>contains_personal_info(record, terms)\<close> is true exactly when some string leaf
  of the record's tree contains some term as a (case-sensitive) substring; with no terms it
  is false for every record, and a leaf that is neither a string nor a container never
  matches.
\<close>

theorem contains_personal_info_iff:
  "(contains_personal_info obj terms
      \<longleftrightarrow> (\<exists>s\<in>set (string_leaves obj). \<exists>t\<in>set terms. sublist t s))
   \<and> \<not> contains_personal_info obj []
   \<and> \<not> contains_personal_info JNull terms
   \<and> \<not> contains_personal_info (JBool b) terms
   \<and> \<not> contains_personal_info (JInt i) terms
   \<and> \<not> contains_personal_info (JFloat f) terms
   \<and> \<not> contains_personal_info (JObj [(k, JNull), (k', JInt i), (k'', JBool b)]) terms"
  by (simp add: contains_personal_info_leaves(1))

text \<open>The record of the specification's scenario 7 is caught by the term \<^verbatim>\<open>Daniel\<close>; the
  same record under another name is not, and matching is case-sensitive.\<close>

theorem contains_personal_info_iff_witness:
  "contains_personal_info
     (JObj [(''name'', JStr ''Daniel's Bot''),
            (''info'', JObj [(''meta'', JObj [(''description'', JStr ''d1'')]),
                             (''params'', JObj [(''system'', JStr ''s1'')])])])
     personal_terms
   \<and> \<not> contains_personal_info
     (JObj [(''name'', JStr ''DANIEL's Bot''),
            (''info'', JObj [(''meta'', JObj [(''description'', JStr ''d1'')]),
                             (''params'', JObj [(''system'', JStr ''s1'')])])])
     personal_terms"
  using contains_personal_info_iff
    [of "JObj [(''name'', JStr ''Daniel's Bot''),
            (''info'', JObj [(''meta'', JObj [(''description'', JStr ''d1'')]),
                             (''params'', JObj [(''system'', JStr ''s1'')])])]"
        personal_terms]
  by (simp add: personal_terms_def sublist_code)

section \<open>File names of the per-record documents\<close>

lemma of_char_lower_char:
  "is_upper c \<Longrightarrow> (of_char (lower_char c) :: nat) = of_char c + 32"
  by (simp add: lower_char_def is_upper_def less_eq_char_def)

lemma is_upper_not_sep:
  "is_upper c \<Longrightarrow> c \<noteq> CHR '' '' \<and> c \<noteq> CHR ''/'' \<and> c \<noteq> CHR 0x5C"
  by (auto simp: is_upper_def less_eq_char_def)

lemma lower_char_not_upper: "\<not> is_upper c \<Longrightarrow> lower_char c = c"
  by (simp add: lower_char_def)

lemma lower_char_is_lower: "is_upper c \<Longrightarrow> is_lower (lower_char c)"
  using of_char_lower_char [of c]
  by (simp add: is_upper_def is_lower_def less_eq_char_def)

lemma is_lower_not_sep:
  "is_lower c \<Longrightarrow> c \<noteq> CHR '' '' \<and> c \<noteq> CHR ''/'' \<and> c \<noteq> CHR 0x5C"
  by (auto simp: is_lower_def less_eq_char_def)

lemma lower_char_sep:
  "lower_char c = CHR '' '' \<longleftrightarrow> c = CHR '' ''"
  "lower_char c = CHR ''/'' \<longleftrightarrow> c = CHR ''/''"
  "lower_char c = CHR 0x5C \<longleftrightarrow> c = CHR 0x5C"
  using is_lower_not_sep [OF lower_char_is_lower, of c] is_upper_not_sep [of c]
    lower_char_not_upper [of c]
  by (cases "is_upper c"; auto)+

lemma replace_char_single:
  "replace_char old [new] s = map (\<lambda>c. if c = old then new else c) s"
  by (induction s) (auto simp: replace_char_def)

lemma derive_filename_eq:
  "derive_filename name = filter allowed (map dash_or_lower name) @ ''.md''"
proof -
  have "replace_char (CHR 0x5C) ''-'' (replace_char CHR ''/'' ''-''
          (replace_char CHR '' '' ''-'' (map lower_char name))) = map dash_or_lower name"
    by (simp add: replace_char_single o_def dash_or_lower_def lower_char_sep)
  moreover have "(\<lambda>c. isalnum c \<or> c \<in> set [CHR ''-'', CHR ''_'']) = allowed"
    by (auto simp: allowed_def isalnum_def)
  ultimately show ?thesis
    by (simp add: derive_filename_def Let_def)
qed

lemma dash_or_lower_not_upper: "\<not> is_upper (dash_or_lower c)"
  using lower_char_is_lower [of c] lower_char_not_upper [of c]
  by (cases "is_upper c")
     (auto simp: dash_or_lower_def is_upper_def is_lower_def less_eq_char_def)

lemmas char_eval =
  derive_filename_def replace_char_def lower_char_def is_upper_def is_lower_def is_digit_def
  isalnum_def is_ascii_def less_eq_char_def char_of_def bit_iff_odd

text \<open>
  Claim C5, as the specification states it, fails: for the name \<^verbatim>\<open>GPT 4 / Test\<close> the code
  does not derive \<^verbatim>\<open>gpt-4-test.md\<close>.
\<close>

theorem derive_filename_counterexample:
  "derive_filename ''GPT 4 / Test'' \<noteq> ''gpt-4-test.md''"
  by (simp add: char_eval)

text \<open>
  Claim C5, amended.  For the name \<^verbatim>\<open>GPT 4 / Test\<close> the derived file name is
  \<^verbatim>\<open>gpt-4---test.md\<close>: each of the two spaces and the slash becomes a \<^verbatim>\<open>-\<close> of its own, and a
  run of \<^verbatim>\<open>-\<close> is not shortened.  In general, for a name of ASCII characters, the name is
  lowercased, spaces and path separators become \<^verbatim>\<open>-\<close>, every character outside
  \<^verbatim>\<open>[A-Za-z0-9_-]\<close> is dropped (so that only \<^verbatim>\<open>[a-z0-9_-]\<close> remains), and \<^verbatim>\<open>.md\<close> is appended.
\<close>

theorem derive_filename_rule:
  "derive_filename ''GPT 4 / Test'' = ''gpt-4---test.md''
   \<and> ((\<forall>c\<in>set name. is_ascii c) \<longrightarrow>
        derive_filename name = filter allowed (map dash_or_lower name) @ ''.md''
        \<and> (\<forall>c\<in>set (filter allowed (map dash_or_lower name)).
              is_lower c \<or> is_digit c \<or> c = CHR ''-'' \<or> c = CHR ''_''))"
proof -
  have "derive_filename ''GPT 4 / Test'' = ''gpt-4---test.md''"
    by (simp add: char_eval)
  moreover have "\<forall>c\<in>set (filter allowed (map dash_or_lower name)).
      is_lower c \<or> is_digit c \<or> c = CHR ''-'' \<or> c = CHR ''_''"
    using dash_or_lower_not_upper by (auto simp: allowed_def)
  ultimately show ?thesis
    using derive_filename_eq by blast
qed

theorem derive_filename_rule_witness:
  "list_all is_ascii ''My Model_2 (v1.5)''
   \<and> derive_filename ''My Model_2 (v1.5)'' = ''my-model_2-v15.md''
   \<and> filter allowed (map dash_or_lower ''My Model_2 (v1.5)'') = ''my-model_2-v15''"
  using derive_filename_rule [of "''My Model_2 (v1.5)''"]
  by (simp add: char_eval allowed_def dash_or_lower_def)

section \<open>Renderers given no records\<close>

text \<open>
  Claim C7.  Given an empty list, each of the CSV, Excel and Markdown-table renderers raises
  \<^verbatim>\<open>ValueError\<close> and leaves the files as they were (the error comes before the output file
  is opened); given a non-empty list, each of them returns normally and has written its
  output file.
\<close>

theorem empty_data_raises:
  "export_to_csv [] path fs = (Inl (ValueError ''No data to export''), fs)
   \<and> export_to_excel [] path fs = (Inl (ValueError ''No data to export''), fs)
   \<and> export_to_markdown str_of now [] path fs = (Inl (ValueError ''No data to export''), fs)
   \<and> (data \<noteq> [] \<longrightarrow>
         fst (export_to_csv data path fs) = Inr ()
       \<and> fst (export_to_excel data path fs) = Inr ()
       \<and> fst (export_to_markdown str_of now data path fs) = Inr ()
       \<and> path \<in> dom (snd (export_to_csv data path fs))
       \<and> path \<in> dom (snd (export_to_excel data path fs))
       \<and> path \<in> dom (snd (export_to_markdown str_of now data path fs)))"
  by (simp add: export_to_csv_def export_to_excel_def export_to_markdown_def Let_def)

theorem empty_data_raises_witness:
  "[[(''name'', JStr ''Bot'')]] \<noteq> []
   \<and> fst (export_to_csv [[(''name'', JStr ''Bot'')]] ''out.csv'' Map.empty) = Inr ()
   \<and> fst (export_to_excel [[(''name'', JStr ''Bot'')]] ''out.xlsx'' Map.empty) = Inr ()
   \<and> fst (export_to_markdown (\<lambda>v. []) ''now'' [[(''name'', JStr ''Bot'')]] ''out.md''
            Map.empty) = Inr ()
   \<and> export_to_csv [] ''out.csv'' Map.empty = (Inl (ValueError ''No data to export''), Map.empty)"
  using empty_data_raises [of "''out.csv''" Map.empty "\<lambda>v. []" "''now''"
      "[[(''name'', JStr ''Bot'')]]"]
    empty_data_raises [of "''out.xlsx''" Map.empty "\<lambda>v. []" "''now''"
      "[[(''name'', JStr ''Bot'')]]"]
    empty_data_raises [of "''out.md''" Map.empty "\<lambda>v. []" "''now''"
      "[[(''name'', JStr ''Bot'')]]"]
  by simp

section \<open>Column order\<close>

lemma collect_keys_eq: "collect_keys data ks = ks \<union> key_union data"
  by (induction data arbitrary: ks) (auto simp: key_union_def)

lemma finite_key_union: "finite (key_union data)"
  by (simp add: key_union_def)

lemma primary_loop_eq:
  "distinct fs \<Longrightarrow>
   primary_loop fs (names, ks) = (names @ filter (\<lambda>f. f \<in> ks) fs, ks - set fs)"
proof (induction fs arbitrary: names ks)
  case Nil
  then show ?case by simp
next
  case (Cons f fs)
  from Cons.prems have f: "f \<notin> set fs" and d: "distinct fs"
    by simp_all
  show ?case
  proof (cases "f \<in> ks")
    case True
    from f have "filter (\<lambda>g. g \<in> ks - {f}) fs = filter (\<lambda>g. g \<in> ks) fs"
      by (intro filter_cong) auto
    moreover have "ks - {f} - set fs = ks - set (f # fs)"
      by auto
    ultimately show ?thesis
      using True Cons.IH [OF d, of "names @ [f]" "ks - {f}"] by simp
  next
    case False
    then have "ks - set fs = ks - set (f # fs)"
      by auto
    then show ?thesis
      using False Cons.IH [OF d, of names ks] by simp
  qed
qed

lemma distinct_primary_fields: "distinct primary_fields"
  by (simp add: primary_fields_def)

lemma ordered_keys:
  "(let all_keys = collect_keys data {};
        (names, all_keys) = primary_loop primary_fields ([], all_keys)
    in names @ sorted_list_of_set all_keys)
   = filter (\<lambda>f. f \<in> key_union data) primary_fields
     @ sorted_list_of_set (key_union data - set primary_fields)"
  by (simp add: collect_keys_eq primary_loop_eq distinct_primary_fields Let_def)

lemma csv_fieldnames_eq:
  "csv_fieldnames data =
     filter (\<lambda>f. f \<in> key_union data) primary_fields
     @ sorted_list_of_set (key_union data - set primary_fields)"
  unfolding csv_fieldnames_def by (rule ordered_keys)

lemma excel_fieldnames_eq:
  "excel_fieldnames data =
     filter (\<lambda>f. f \<in> key_union data) primary_fields
     @ sorted_list_of_set (key_union data - set primary_fields)"
  unfolding excel_fieldnames_def by (rule ordered_keys)

lemma markdown_headers_eq:
  "markdown_headers data =
     filter (\<lambda>f. f \<in> key_union data) primary_fields
     @ sorted_list_of_set (key_union data - set primary_fields)"
  unfolding markdown_headers_def by (rule ordered_keys)

lemma header_of_primary:
  "header_of ''name'' = ''name''"
  "header_of ''info.meta.description'' = ''description''"
  "header_of ''info.params.system'' = ''system_prompt''"
  by (simp_all add: header_of_def header_mapping_def)

lemma header_of_other: "f \<notin> set primary_fields \<Longrightarrow> header_of f = f"
  by (simp add: header_of_def header_mapping_def primary_fields_def)

text \<open>
  Claim C1.  For a non-empty list of projected items the column sequence of the CSV
  renderer is: the primary fields \<^verbatim>\<open>name\<close>, \<^verbatim>\<open>info.meta.description\<close>, \<^verbatim>\<open>info.params.system\<close>
  that occur in the union of the items' key sets, in that order, followed by the other keys
  of the union in lexicographic order (sorted, without repetition, and exactly those keys).
  The header of a column is its registered display name, or the key itself when none is
  registered, and these headers are the first row written.
\<close>

theorem csv_column_order:
  "data \<noteq> [] \<Longrightarrow>
     csv_fieldnames data =
       filter (\<lambda>f. f \<in> key_union data) primary_fields
       @ sorted_list_of_set (key_union data - set primary_fields)
   \<and> primary_fields = [''name'', ''info.meta.description'', ''info.params.system'']
   \<and> sorted (sorted_list_of_set (key_union data - set primary_fields))
   \<and> distinct (sorted_list_of_set (key_union data - set primary_fields))
   \<and> set (sorted_list_of_set (key_union data - set primary_fields))
       = key_union data - set primary_fields
   \<and> csv_header_row data = map header_of (csv_fieldnames data)
   \<and> header_of ''name'' = ''name''
   \<and> header_of ''info.meta.description'' = ''description''
   \<and> header_of ''info.params.system'' = ''system_prompt''
   \<and> (\<forall>f. f \<notin> set primary_fields \<longrightarrow> header_of f = f)
   \<and> (\<exists>rows. snd (export_to_csv data path fs) path
         = Some (CsvFile (map JStr (map header_of (csv_fieldnames data)) # rows)))"
  using finite_key_union [of data]
  by (simp add: csv_fieldnames_eq csv_header_row_def header_of_primary header_of_other
      export_to_csv_def primary_fields_def)

theorem csv_column_order_witness:
  "[[(''id'', JInt 3), (''name'', JStr ''Bot''), (''info.params.system'', JNull)],
    [(''owned_by'', JNull), (''Zeta'', JNull), (''name'', JStr ''Other'')]] \<noteq> []
   \<and> csv_fieldnames
        [[(''id'', JInt 3), (''name'', JStr ''Bot''), (''info.params.system'', JNull)],
         [(''owned_by'', JNull), (''Zeta'', JNull), (''name'', JStr ''Other'')]]
      = [''name'', ''info.params.system'', ''Zeta'', ''id'', ''owned_by'']
   \<and> csv_header_row
        [[(''id'', JInt 3), (''name'', JStr ''Bot''), (''info.params.system'', JNull)],
         [(''owned_by'', JNull), (''Zeta'', JNull), (''name'', JStr ''Other'')]]
      = [''name'', ''system_prompt'', ''Zeta'', ''id'', ''owned_by'']"
proof -
  let ?data = "[[(''id'', JInt 3), (''name'', JStr ''Bot''), (''info.params.system'', JNull)],
    [(''owned_by'', JNull), (''Zeta'', JNull), (''name'', JStr ''Other'')]]"
  have cols: "filter (\<lambda>f. f \<in> key_union ?data) primary_fields
       @ sorted_list_of_set (key_union ?data - set primary_fields)
     = [''name'', ''info.params.system'', ''Zeta'', ''id'', ''owned_by'']"
    by code_simp
  have heads: "map header_of [''name'', ''info.params.system'', ''Zeta'', ''id'', ''owned_by'']
     = [''name'', ''system_prompt'', ''Zeta'', ''id'', ''owned_by'']"
    by (simp add: header_of_def header_mapping_def)
  show ?thesis
    using csv_column_order [of ?data] cols heads by simp
qed

section \<open>The three tabular renderers agree\<close>

lemma first_seen_set: "set (first_seen ks seen) = set seen \<union> set ks"
  by (induction ks arbitrary: seen) auto

lemma first_seen_distinct: "distinct seen \<Longrightarrow> distinct (first_seen ks seen)"
  by (induction ks arbitrary: seen) auto

lemma df_columns_DataFrame:
  "df_columns (DataFrame data) = first_seen (concat (map (map fst) data)) []"
  by (simp add: df_columns_def DataFrame_def o_def)

lemma set_df_columns_DataFrame: "set (df_columns (DataFrame data)) = key_union data"
  by (auto simp: df_columns_DataFrame first_seen_set key_union_def)

lemma distinct_df_columns_DataFrame: "distinct (df_columns (DataFrame data))"
  by (simp add: df_columns_DataFrame first_seen_distinct)

lemma set_ordered_keys:
  "set (filter (\<lambda>f. f \<in> key_union data) primary_fields
        @ sorted_list_of_set (key_union data - set primary_fields)) = key_union data"
  using finite_key_union [of data] by auto

lemma excel_ordered_columns_eq: "excel_ordered_columns data = excel_fieldnames data"
proof -
  have "set (excel_fieldnames data) = key_union data"
    unfolding excel_fieldnames_eq by (rule set_ordered_keys)
  then show ?thesis
    by (simp add: excel_ordered_columns_def Let_def set_df_columns_DataFrame)
qed

lemma select_one_column:
  "distinct (map fst df) \<Longrightarrow> col \<in> set (map fst df) \<Longrightarrow>
     map fst (filter (\<lambda>c. fst c = col) df) = [col]"
proof (induction df)
  case Nil
  then show ?case by simp
next
  case (Cons c df)
  show ?case
  proof (cases "fst c = col")
    case True
    from Cons.prems have "fst c \<notin> fst ` set df"
      by simp
    with True have "\<forall>x\<in>set df. fst x \<noteq> col"
      by (metis imageI)
    then have "filter (\<lambda>c. fst c = col) df = []"
      by (simp add: filter_empty_conv)
    with True show ?thesis by simp
  next
    case False
    with Cons show ?thesis by auto
  qed
qed

lemma df_columns_select:
  "distinct (df_columns df) \<Longrightarrow> set cols \<subseteq> set (df_columns df) \<Longrightarrow>
     df_columns (df_select df cols) = cols"
proof (induction cols)
  case Nil
  then show ?case by (simp add: df_columns_def df_select_def)
next
  case (Cons col cols)
  then have "map fst (filter (\<lambda>c. fst c = col) df) = [col]"
    by (intro select_one_column) (auto simp: df_columns_def)
  with Cons show ?case
    by (simp add: df_columns_def df_select_def)
qed

lemma df_columns_rename:
  assumes "df_columns df = cols"
  shows "df_columns (df_rename (map (\<lambda>col. (col, h col)) cols) df) = map h cols"
proof -
  have "map_of (map (\<lambda>col. (col, h col)) (df_columns df)) (fst c) = Some (h (fst c))"
    if "c \<in> set df" for c
    using that by (induction df) (auto simp: df_columns_def)
  then have "df_columns (df_rename (map (\<lambda>col. (col, h col)) (df_columns df)) df)
      = map h (df_columns df)"
    by (simp add: df_columns_def df_rename_def)
  with assms show ?thesis by simp
qed

lemma df_columns_excel_frame:
  "df_columns (excel_frame data) = map header_of (excel_fieldnames data)"
proof -
  have "set (excel_fieldnames data) \<subseteq> set (df_columns (DataFrame data))"
    unfolding excel_fieldnames_eq set_ordered_keys set_df_columns_DataFrame by simp
  then have "df_columns (df_select (DataFrame data) (excel_fieldnames data))
      = excel_fieldnames data"
    by (intro df_columns_select distinct_df_columns_DataFrame)
  then show ?thesis
    by (simp add: excel_frame_def Let_def excel_ordered_columns_eq df_columns_rename)
qed

text \<open>
  Claim C2.  For a non-empty list of projected items the CSV renderer, the Excel renderer
  and the Markdown-table renderer compute the same ordered column sequence and the same
  display-name headers, and these headers are what each of them writes: the first CSV row,
  the column labels of the frame given to \<^verbatim>\<open>to_excel\<close>, and the header line of the table.
\<close>

theorem renderers_agree:
  "data \<noteq> [] \<Longrightarrow>
     csv_fieldnames data = excel_ordered_columns data
   \<and> csv_fieldnames data = markdown_headers data
   \<and> csv_header_row data = df_columns (excel_frame data)
   \<and> csv_header_row data = markdown_header_row data
   \<and> (\<exists>rows. snd (export_to_csv data path fs) path
         = Some (CsvFile (map JStr (csv_header_row data) # rows)))
   \<and> (\<exists>frame. snd (export_to_excel data path fs) path = Some (ExcelFile frame)
         \<and> df_columns frame = csv_header_row data)
   \<and> (\<exists>before after. snd (export_to_markdown str_of now data path fs) path
         = Some (TextFile (before @ markdown_line (csv_header_row data) @ after)))"
proof -
  assume "data \<noteq> []"
  moreover have "csv_fieldnames data = excel_ordered_columns data"
    by (simp add: excel_ordered_columns_eq csv_fieldnames_eq excel_fieldnames_eq)
  moreover have m: "csv_fieldnames data = markdown_headers data"
    by (simp add: csv_fieldnames_eq markdown_headers_eq)
  moreover have "csv_header_row data = df_columns (excel_frame data)"
    by (simp add: csv_header_row_def df_columns_excel_frame csv_fieldnames_eq
        excel_fieldnames_eq)
  moreover have h: "csv_header_row data = markdown_header_row data"
    by (simp add: csv_header_row_def markdown_header_row_def m)
  moreover have "\<exists>before after.
      ''# OpenWebUI Model Export'' @ [CHR 0x0A, CHR 0x0A]
       @ ''Generated on: '' @ now @ [CHR 0x0A, CHR 0x0A]
       @ markdown_line (markdown_header_row data)
       @ markdown_line (replicate (length (markdown_headers data)) ''---'')
       @ concat (map (markdown_row str_of (markdown_headers data)) data)
      = before @ markdown_line (csv_header_row data) @ after"
    unfolding h
    by (rule exI [of _ "''# OpenWebUI Model Export'' @ [CHR 0x0A, CHR 0x0A]
       @ ''Generated on: '' @ now @ [CHR 0x0A, CHR 0x0A]"], rule exI) simp
  ultimately show ?thesis
    by (simp add: export_to_csv_def export_to_excel_def export_to_markdown_def Let_def)
qed

theorem renderers_agree_witness:
  "[[(''id'', JInt 3), (''name'', JStr ''Bot''), (''info.params.system'', JNull)],
    [(''owned_by'', JNull), (''Zeta'', JNull), (''name'', JStr ''Other'')]] \<noteq> []
   \<and> csv_fieldnames
        [[(''id'', JInt 3), (''name'', JStr ''Bot''), (''info.params.system'', JNull)],
         [(''owned_by'', JNull), (''Zeta'', JNull), (''name'', JStr ''Other'')]]
      = [''name'', ''info.params.system'', ''Zeta'', ''id'', ''owned_by'']
   \<and> markdown_headers
        [[(''id'', JInt 3), (''name'', JStr ''Bot''), (''info.params.system'', JNull)],
         [(''owned_by'', JNull), (''Zeta'', JNull), (''name'', JStr ''Other'')]]
      = [''name'', ''info.params.system'', ''Zeta'', ''id'', ''owned_by'']
   \<and> csv_header_row
        [[(''id'', JInt 3), (''name'', JStr ''Bot''), (''info.params.system'', JNull)],
         [(''owned_by'', JNull), (''Zeta'', JNull), (''name'', JStr ''Other'')]]
      = [''name'', ''system_prompt'', ''Zeta'', ''id'', ''owned_by'']
   \<and> markdown_header_row
        [[(''id'', JInt 3), (''name'', JStr ''Bot''), (''info.params.system'', JNull)],
         [(''owned_by'', JNull), (''Zeta'', JNull), (''name'', JStr ''Other'')]]
      = [''name'', ''system_prompt'', ''Zeta'', ''id'', ''owned_by'']"
proof -
  let ?data = "[[(''id'', JInt 3), (''name'', JStr ''Bot''), (''info.params.system'', JNull)],
    [(''owned_by'', JNull), (''Zeta'', JNull), (''name'', JStr ''Other'')]]"
  have ne: "?data \<noteq> []"
    by simp
  have cols: "excel_ordered_columns ?data
      = [''name'', ''info.params.system'', ''Zeta'', ''id'', ''owned_by'']"
    by code_simp
  have labels: "df_columns (excel_frame ?data)
      = [''name'', ''system_prompt'', ''Zeta'', ''id'', ''owned_by'']"
    by code_simp
  from renderers_agree [OF ne] cols labels ne show ?thesis
    by metis
qed

section \<open>The loops of a run\<close>

lemma ramp_Nil: "ramp base width n i 0 = []"
  by (simp add: ramp_def)

lemma ramp_Suc:
  "ramp base width n i (Suc len)
     = (base + of_nat (i + 1) * width / of_nat n) # ramp base width n (Suc i) len"
  by (simp add: ramp_def upt_conv_Cons)

lemma ramp_append:
  "ramp base width n i (Suc len)
     = ramp base width n i len @ [base + of_nat (i + len + 1) * width / of_nat n]"
  by (simp add: ramp_def)

lemma filter_loop_eq:
  "filter_loop data i n (filtered, st) =
     (filtered @ filter (\<lambda>rec. \<not> contains_personal_info rec personal_terms) data,
      st\<lparr>progress := progress st @ ramp 10 20 n i (length data)\<rparr>)"
proof (induction data arbitrary: i filtered st)
  case Nil
  then show ?case by (simp add: ramp_Nil)
next
  case (Cons rec data)
  show ?case
    by (simp add: Cons.IH ramp_Suc update_status_def)
qed

lemma extract_field_Inr: "\<exists>v. extract_field rec field = Inr v"
proof (cases "resolves rec (split_char CHR ''.'' field)")
  case None
  from walk_parts_unresolved [OF None] show ?thesis
    by (auto simp: extract_field_def)
next
  case (Some w)
  from walk_parts_resolved [OF Some] show ?thesis
    by (simp add: extract_field_def)
qed

lemma extract_fields_Inr: "\<exists>it. extract_fields rec selected acc = Inr it"
proof (induction selected arbitrary: acc)
  case Nil
  then show ?case by simp
next
  case (Cons field selected)
  obtain v where "extract_field rec field = Inr v"
    using extract_field_Inr by blast
  with Cons show ?case by simp
qed

lemma extract_item_project: "extract_item selected rec = Inr (project selected rec)"
  using extract_fields_Inr [of rec selected "[]"]
  by (auto simp: project_def extract_item_def)

lemma extract_loop_eq:
  "extract_loop selected data i n (extracted, st) =
     (Inr (extracted @ map (project selected) data),
      st\<lparr>progress := progress st @ ramp 30 40 n i (length data)\<rparr>)"
proof (induction data arbitrary: i extracted st)
  case Nil
  then show ?case by (simp add: ramp_Nil)
next
  case (Cons rec data)
  show ?case
    by (simp add: Cons.IH ramp_Suc update_status_def extract_item_project)
qed

lemma documents_loop_progress:
  "\<exists>len. len \<le> length items
     \<and> progress (snd (documents_loop str_of dir items i n st))
         = progress st @ ramp 65 5 n i len
     \<and> (fst (documents_loop str_of dir items i n st) = Inr () \<longrightarrow> len = length items)"
proof (induction items arbitrary: i st)
  case Nil
  then show ?case by (simp add: ramp_Nil)
next
  case (Cons it items)
  show ?case
  proof (cases "individual_file str_of it")
    case (Inl e)
    then show ?thesis
      by (intro exI [of _ 0]) (simp add: ramp_Nil)
  next
    case (Inr doc)
    obtain filename body where doc: "doc = (filename, body)"
      by (cases doc)
    let ?st = "update_status (65 + of_nat (i + 1) * 5 / of_nat n)
                 (st\<lparr>disk := (disk st)(path_join dir filename \<mapsto> TextFile body)\<rparr>)"
    from Cons.IH [of "i + 1" ?st] obtain len where len: "len \<le> length items"
      "progress (snd (documents_loop str_of dir items (i + 1) n ?st))
         = progress ?st @ ramp 65 5 n (i + 1) len"
      "fst (documents_loop str_of dir items (i + 1) n ?st) = Inr () \<longrightarrow> len = length items"
      by blast
    with Inr doc show ?thesis
      by (intro exI [of _ "Suc len"]) (simp add: ramp_Suc update_status_def)
  qed
qed

section \<open>Order of the records through the pipeline\<close>
















section \<open>Percentages emitted by a run\<close>

lemma ramp_member:
  assumes "p \<in> set (ramp base width n i len)"
  obtains k where "i \<le> k" "k < i + len" "p = base + of_nat (k + 1) * width / of_nat n"
  using assms by (auto simp: ramp_def)

lemma ramp_bounds:
  assumes "p \<in> set (ramp base width n i len)" "i + len \<le> n" "0 \<le> width"
  shows "base \<le> p \<and> p \<le> base + width"
proof -
  from assms(1) obtain k where k: "i \<le> k" "k < i + len"
    "p = base + of_nat (k + 1) * width / of_nat n"
    by (rule ramp_member)
  with assms(2) have n: "0 < n" "k + 1 \<le> n"
    by simp_all
  then have "(of_nat (k + 1) :: rat) \<le> of_nat n"
    by (simp only: of_nat_le_iff)
  with assms(3) have "of_nat (k + 1) * width \<le> of_nat n * width"
    by (simp add: mult_right_mono)
  with n(1) have "of_nat (k + 1) * width / of_nat n \<le> width"
    by (simp add: pos_divide_le_eq mult.commute)
  moreover from assms(3) have "0 \<le> of_nat (k + 1) * width / of_nat n"
    by simp
  ultimately show ?thesis
    using k(3) by simp
qed

lemma ramp_sorted: "0 \<le> width \<Longrightarrow> sorted (ramp base width n i len)"
proof (induction len arbitrary: i)
  case 0
  then show ?case by (simp add: ramp_Nil)
next
  case (Suc len)
  have "base + of_nat (i + 1) * width / of_nat n \<le> p"
    if "p \<in> set (ramp base width n (Suc i) len)" for p
  proof -
    from that obtain k where k: "Suc i \<le> k" "p = base + of_nat (k + 1) * width / of_nat n"
      by (rule ramp_member)
    then have "(of_nat (i + 1) :: rat) \<le> of_nat (k + 1)"
      by simp
    with Suc.prems have "of_nat (i + 1) * width \<le> of_nat (k + 1) * width"
      by (simp add: mult_right_mono)
    then have "of_nat (i + 1) * width / of_nat n \<le> of_nat (k + 1) * width / of_nat n"
      by (rule divide_right_mono) simp
    with k(2) show ?thesis by simp
  qed
  with Suc show ?case
    by (simp add: ramp_Suc)
qed

lemma appends_refl: "appends lo hi st st"
  by (simp add: appends_def)

lemma appends_update: "lo \<le> p \<Longrightarrow> p \<le> hi \<Longrightarrow> appends lo hi st (update_status p st)"
  by (simp add: appends_def update_status_def)

lemma appends_trans:
  assumes "appends lo1 hi1 st st1" "appends lo2 hi2 st1 st2"
    and "hi1 \<le> lo2" "lo1 \<le> hi1" "lo2 \<le> hi2"
  shows "appends lo1 hi2 st st2"
proof -
  from assms(1) obtain xs where xs: "progress st1 = progress st @ xs" "sorted xs"
    "\<forall>x\<in>set xs. lo1 \<le> x \<and> x \<le> hi1"
    by (auto simp: appends_def)
  from assms(2) obtain ys where ys: "progress st2 = progress st1 @ ys" "sorted ys"
    "\<forall>x\<in>set ys. lo2 \<le> x \<and> x \<le> hi2"
    by (auto simp: appends_def)
  have "sorted (xs @ ys)"
    using xs(2,3) ys(2,3) assms(3) by (fastforce simp: sorted_append)
  moreover have "\<forall>x\<in>set (xs @ ys). lo1 \<le> x \<and> x \<le> hi2"
    using xs(3) ys(3) assms(3-5) by fastforce
  moreover have "progress st2 = progress st @ (xs @ ys)"
    using xs(1) ys(1) by simp
  ultimately show ?thesis
    unfolding appends_def by blast
qed

lemma appends_widen:
  "appends lo hi st st' \<Longrightarrow> lo' \<le> lo \<Longrightarrow> hi \<le> hi' \<Longrightarrow> appends lo' hi' st st'"
  unfolding appends_def by fastforce

lemma appends_disk: "appends lo hi st st' \<Longrightarrow> appends lo hi st (st'\<lparr>disk := fs\<rparr>)"
  by (simp add: appends_def)

lemma load_phase_appends: "appends 5 5 st (snd (load_phase loaded st))"
  by (auto simp: load_phase_def Let_def appends_def update_status_def
      split: sum.splits json.splits)

lemma load_phase_first:
  "\<exists>xs. progress (snd (load_phase loaded st)) = progress st @ 5 # xs"
  by (auto simp: load_phase_def Let_def update_status_def split: sum.splits json.splits)

lemma filter_phase_appends: "appends 10 30 st (snd (filter_phase cfg data st))"
proof (cases "filter_personal cfg")
  case True
  have "sorted (10 # ramp 10 20 (length data) 0 (length data))"
    using ramp_bounds [of _ 10 20 "length data" 0 "length data"]
    by (simp add: ramp_sorted)
  moreover have "\<forall>x\<in>set (10 # ramp 10 20 (length data) 0 (length data)). 10 \<le> x \<and> x \<le> 30"
    using ramp_bounds [of _ 10 20 "length data" 0 "length data"] by simp
  ultimately show ?thesis
    using True unfolding appends_def
    by (intro exI [of _ "10 # ramp 10 20 (length data) 0 (length data)"])
       (simp add: filter_phase_def filter_loop_eq update_status_def)
next
  case False
  then show ?thesis
    by (simp add: filter_phase_def appends_refl)
qed

lemma extract_phase_appends: "appends 30 70 st (snd (extract_phase cfg data st))"
proof -
  have "sorted (30 # ramp 30 40 (length data) 0 (length data))"
    using ramp_bounds [of _ 30 40 "length data" 0 "length data"]
    by (simp add: ramp_sorted)
  moreover have "\<forall>x\<in>set (30 # ramp 30 40 (length data) 0 (length data)). 30 \<le> x \<and> x \<le> 70"
    using ramp_bounds [of _ 30 40 "length data" 0 "length data"] by simp
  ultimately show ?thesis
    unfolding appends_def
    by (intro exI [of _ "30 # ramp 30 40 (length data) 0 (length data)"])
       (simp add: extract_phase_def extract_loop_eq update_status_def)
qed

lemma documents_phase_appends:
  "appends 65 70 st (snd (documents_phase str_of cfg items st))"
proof -
  let ?dir = "path_join (path_join (output_dir cfg) (''export_'' @ timestamp cfg))
               ''individual-configs''"
  from documents_loop_progress [of items str_of ?dir 0 "length items" "update_status 65 st"]
  obtain len where len: "len \<le> length items"
    "progress (snd (documents_loop str_of ?dir items 0 (length items) (update_status 65 st)))
       = progress (update_status 65 st) @ ramp 65 5 (length items) 0 len"
    by blast
  have "sorted (65 # ramp 65 5 (length items) 0 len)"
    using ramp_bounds [of _ 65 5 "length items" 0 len] len(1)
    by (simp add: ramp_sorted)
  moreover have "\<forall>x\<in>set (65 # ramp 65 5 (length items) 0 len). 65 \<le> x \<and> x \<le> 70"
    using ramp_bounds [of _ 65 5 "length items" 0 len] len(1) by simp
  moreover have "progress (snd (documents_phase str_of cfg items st))
      = progress (update_status 65 st) @ ramp 65 5 (length items) 0 len"
    unfolding documents_phase_def Let_def by (rule len(2))
  then have "progress (snd (documents_phase str_of cfg items st))
      = progress st @ 65 # ramp 65 5 (length items) 0 len"
    by (simp add: update_status_def)
  ultimately show ?thesis
    unfolding appends_def by blast
qed

lemma formats_loop_appends:
  "appends (70 + of_nat i * (30 / of_nat n)) (70 + of_nat (i + length formats) * (30 / of_nat n))
     st (snd (formats_loop str_of cfg data formats i n st))"
proof (induction formats arbitrary: i st)
  case Nil
  then show ?case by (simp add: appends_refl)
next
  case (Cons f formats)
  let ?step = "30 / (of_nat n :: rat)"
  let ?base = "70 + of_nat i * ?step"
  let ?next = "70 + of_nat (i + 1) * ?step"
  let ?top = "70 + of_nat (i + length (f # formats)) * ?step"
  have step: "0 \<le> ?step"
    by simp
  have "(of_nat i :: rat) \<le> of_nat (i + 1)" "(of_nat (i + 1) :: rat) \<le> of_nat (i + length (f # formats))"
    by simp_all
  with step have le: "?base \<le> ?next" "?next \<le> ?top"
    by (simp_all only: add_left_mono mult_right_mono)
  let ?st1 = "update_status ?base st"
  obtain r fs where e: "export_to str_of cfg f data (output_path_of cfg f) (disk ?st1) = (r, fs)"
    by (cases "export_to str_of cfg f data (output_path_of cfg f) (disk ?st1)")
  have first: "appends ?base ?base st (?st1\<lparr>disk := fs\<rparr>)"
    by (simp add: appends_update appends_disk)
  show ?case
  proof (cases r)
    case (Inl err)
    with e have "snd (formats_loop str_of cfg data (f # formats) i n st) = ?st1\<lparr>disk := fs\<rparr>"
      by (simp add: Let_def)
    with first le show ?thesis
      by (simp only: appends_widen [of ?base ?base _ _ ?base ?top])
  next
    case (Inr u)
    let ?st2 = "update_status ?next (?st1\<lparr>disk := fs\<rparr>)"
    from Inr e have run: "snd (formats_loop str_of cfg data (f # formats) i n st)
        = snd (formats_loop str_of cfg data formats (i + 1) n ?st2)"
      by (simp add: Let_def)
    have second: "appends ?next ?next (?st1\<lparr>disk := fs\<rparr>) ?st2"
      by (simp add: appends_update)
    have two: "appends ?base ?next st ?st2"
      using le(1) by (intro appends_trans [OF first second]) simp_all
    have top: "70 + of_nat (i + 1 + length formats) * ?step = ?top"
      by simp
    from Cons.IH [of "i + 1" ?st2]
    have rest: "appends ?next ?top ?st2
        (snd (formats_loop str_of cfg data formats (i + 1) n ?st2))"
      unfolding top .
    have "appends ?base ?top st
        (snd (formats_loop str_of cfg data formats (i + 1) n ?st2))"
      using le by (intro appends_trans [OF two rest]) simp_all
    with run show ?thesis
      by simp
  qed
qed

lemma render_phase_appends:
  "appends 70 100 st (snd (render_phase str_of cfg items st))"
proof (cases "chosen_format cfg")
  case All
  let ?formats = "[Csv, Json, Excel, Yaml, Xml, Markdown]"
  obtain r st1 where l: "formats_loop str_of cfg items ?formats 0 6 st = (r, st1)"
    by (cases "formats_loop str_of cfg items ?formats 0 6 st")
  from formats_loop_appends [of 0 6 ?formats st str_of cfg items] l
  have a: "appends 70 100 st st1"
    by simp
  show ?thesis
  proof (cases r)
    case (Inl e)
    with All l a show ?thesis
      by (simp add: render_phase_def)
  next
    case (Inr u)
    have b: "appends 100 100 st1 (update_status 100 st1)"
      by (simp add: appends_update)
    have "appends 70 100 st (update_status 100 st1)"
      by (rule appends_trans [OF a b]) simp_all
    with All l Inr show ?thesis
      by (simp add: render_phase_def)
  qed
next
  case (Single f)
  let ?st1 = "update_status 70 st"
  obtain r fs where e: "export_to str_of cfg f items (output_path_of cfg f) (disk ?st1) = (r, fs)"
    by (cases "export_to str_of cfg f items (output_path_of cfg f) (disk ?st1)")
  have a: "appends 70 70 st (?st1\<lparr>disk := fs\<rparr>)"
    by (simp add: appends_update appends_disk)
  show ?thesis
  proof (cases r)
    case (Inl err)
    with Single e have "snd (render_phase str_of cfg items st) = ?st1\<lparr>disk := fs\<rparr>"
      by (simp add: render_phase_def Let_def)
    with a show ?thesis
      by (simp add: appends_widen [of 70 70 _ _ 70 100])
  next
    case (Inr u)
    have b: "appends 100 100 (?st1\<lparr>disk := fs\<rparr>) (update_status 100 (?st1\<lparr>disk := fs\<rparr>))"
      by (simp add: appends_update)
    have "appends 70 100 st (update_status 100 (?st1\<lparr>disk := fs\<rparr>))"
      by (rule appends_trans [OF a b]) simp_all
    moreover from Single e Inr have "snd (render_phase str_of cfg items st)
        = update_status 100 (?st1\<lparr>disk := fs\<rparr>)"
      by (simp add: render_phase_def Let_def)
    ultimately show ?thesis
      by simp
  qed
qed

lemma render_phase_last:
  "fst (render_phase str_of cfg items st) = Inr () \<Longrightarrow>
     \<exists>xs. progress (snd (render_phase str_of cfg items st)) = xs @ [100]"
  by (cases "chosen_format cfg")
     (auto simp: render_phase_def Let_def update_status_def split: prod.splits sum.splits)

lemma perform_export_try_appends:
  "\<exists>mid. appends 5 70 st mid
      \<and> appends 65 100 mid (snd (perform_export_try str_of cfg loaded st))"
proof -
  obtain r1 st1 where p1: "load_phase loaded st = (r1, st1)"
    by (cases "load_phase loaded st")
  from load_phase_appends [of st loaded] p1 have a1: "appends 5 5 st st1"
    by simp
  show ?thesis
  proof (cases r1)
    case (Inl e)
    with p1 have "snd (perform_export_try str_of cfg loaded st) = st1"
      by (simp add: perform_export_try_def)
    with a1 show ?thesis
      using appends_widen [OF a1, of 5 70] appends_refl by auto
  next
    case (Inr data)
    obtain data' st2 where p2: "filter_phase cfg data st1 = (data', st2)"
      by (cases "filter_phase cfg data st1")
    from filter_phase_appends [of st1 cfg data] p2 have a2: "appends 10 30 st1 st2"
      by simp
    obtain r3 st3 where p3: "extract_phase cfg data' st2 = (r3, st3)"
      by (cases "extract_phase cfg data' st2")
    from extract_phase_appends [of st2 cfg data'] p3 have a3: "appends 30 70 st2 st3"
      by simp
    have "appends 5 30 st st2"
      by (rule appends_trans [OF a1 a2]) simp_all
    then have a123: "appends 5 70 st st3"
      by (rule appends_trans [OF _ a3]) simp_all
    show ?thesis
    proof (cases r3)
      case (Inl e)
      with Inr p1 p2 p3 have "snd (perform_export_try str_of cfg loaded st) = st3"
        by (simp add: perform_export_try_def)
      with a123 show ?thesis
        using appends_refl by auto
    next
      case items: (Inr items)
      obtain r4 st4 where p4: "documents_phase str_of cfg items st3 = (r4, st4)"
        by (cases "documents_phase str_of cfg items st3")
      from documents_phase_appends [of st3 str_of cfg items] p4 have a4: "appends 65 70 st3 st4"
        by simp
      show ?thesis
      proof (cases r4)
        case (Inl e)
        with Inr items p1 p2 p3 p4
        have "snd (perform_export_try str_of cfg loaded st) = st4"
          by (simp add: perform_export_try_def)
        with a123 appends_widen [OF a4, of 65 100] show ?thesis
          by auto
      next
        case u: (Inr u)
        from render_phase_appends [of st4 str_of cfg items]
        have a5: "appends 70 100 st4 (snd (render_phase str_of cfg items st4))" .
        have "appends 65 100 st3 (snd (render_phase str_of cfg items st4))"
          by (rule appends_trans [OF a4 a5]) simp_all
        moreover from Inr items u p1 p2 p3 p4
        have "snd (perform_export_try str_of cfg loaded st)
            = snd (render_phase str_of cfg items st4)"
          by (simp add: perform_export_try_def)
        ultimately show ?thesis
          using a123 by auto
      qed
    qed
  qed
qed

lemma perform_export_try_first:
  "\<exists>xs. progress (snd (perform_export_try str_of cfg loaded st)) = progress st @ 5 # xs"
proof -
  from load_phase_first [of loaded st] obtain xs where
    xs: "progress (snd (load_phase loaded st)) = progress st @ 5 # xs"
    by blast
  obtain r1 st1 where p1: "load_phase loaded st = (r1, st1)"
    by (cases "load_phase loaded st")
  show ?thesis
  proof (cases r1)
    case (Inl e)
    with p1 xs show ?thesis
      by (simp add: perform_export_try_def)
  next
    case (Inr data)
    obtain data' st2 where p2: "filter_phase cfg data st1 = (data', st2)"
      by (cases "filter_phase cfg data st1")
    obtain r3 st3 where p3: "extract_phase cfg data' st2 = (r3, st3)"
      by (cases "extract_phase cfg data' st2")
    from filter_phase_appends [of st1 cfg data] p2 obtain fs where
      f: "progress st2 = progress st1 @ fs"
      by (auto simp: appends_def)
    from extract_phase_appends [of st2 cfg data'] p3 obtain es where
      e: "progress st3 = progress st2 @ es"
      by (auto simp: appends_def)
    from p1 xs f e have st3: "progress st3 = progress st @ 5 # (xs @ fs @ es)"
      by simp
    show ?thesis
    proof (cases r3)
      case (Inl err)
      with Inr p1 p2 p3 st3 show ?thesis
        by (simp add: perform_export_try_def)
    next
      case items: (Inr items)
      obtain r4 st4 where p4: "documents_phase str_of cfg items st3 = (r4, st4)"
        by (cases "documents_phase str_of cfg items st3")
      from documents_phase_appends [of st3 str_of cfg items] p4 obtain ds where
        d: "progress st4 = progress st3 @ ds"
        by (auto simp: appends_def)
      from render_phase_appends [of st4 str_of cfg items] obtain rs where
        r: "progress (snd (render_phase str_of cfg items st4)) = progress st4 @ rs"
        by (auto simp: appends_def)
      from Inr items p1 p2 p3 p4 st3 d r show ?thesis
        by (cases r4) (simp_all add: perform_export_try_def)
    qed
  qed
qed

lemma perform_export_try_last:
  "fst (perform_export_try str_of cfg loaded st) = Inr () \<Longrightarrow>
     \<exists>xs. progress (snd (perform_export_try str_of cfg loaded st)) = xs @ [100]"
  using render_phase_last
  by (auto simp: perform_export_try_def split: prod.splits sum.splits)

text \<open>
  Claim C6, as the specification states it, fails.  A run over one record that succeeds
  emits 70 at the end of extraction and then 65 when it starts on the per-record documents;
  a run that fails ends with the percentage 0 after the 5 of its first update.
\<close>

theorem progress_monotone_counterexample:
  "progress (snd (perform_export (\<lambda>v. []) example_config (Inr (JArr [alpha_bot]))
       (start Map.empty)))
     = [5, 10, 30, 30, 70, 65, 70, 70, 100]
   \<and> \<not> sorted (progress (snd (perform_export (\<lambda>v. []) example_config (Inr (JArr [alpha_bot]))
       (start Map.empty))))
   \<and> progress (snd (perform_export (\<lambda>v. []) example_config (Inr JNull) (start Map.empty)))
     = [5, 0]
   \<and> \<not> sorted (progress (snd (perform_export (\<lambda>v. []) example_config (Inr JNull)
       (start Map.empty))))"
proof -
  have a: "progress (snd (perform_export (\<lambda>v. []) example_config (Inr (JArr [alpha_bot]))
       (start Map.empty)))
     = [5, 10, 30, 30, 70, 65, 70, 70, 100]"
    by code_simp
  have b: "progress (snd (perform_export (\<lambda>v. []) example_config (Inr JNull) (start Map.empty)))
     = [5, 0]"
    by code_simp
  show ?thesis
    unfolding a b by simp
qed

text \<open>
  Claim C6, amended.  In every export run each emitted percentage lies between 0 and 100.
  The sequence consists of a non-decreasing part from the first update (5) to the last
  update of extraction, with values from 5 to 70, then a non-decreasing part from the start
  of the per-record documents to the end of rendering, with values from 65 to 100, and,
  when the run fails, a final update with the percentage 0.  A run that succeeds ends with
  100.
\<close>

theorem progress_of_run:
  "perform_export str_of cfg loaded (start fs) = (res, st') \<Longrightarrow>
     (\<forall>p\<in>set (progress st'). 0 \<le> p \<and> p \<le> 100)
   \<and> (\<exists>up_to_extraction from_documents.
         progress st' = up_to_extraction @ from_documents
                          @ (case res of Succeeded \<Rightarrow> [] | Failed e \<Rightarrow> [0])
       \<and> sorted up_to_extraction \<and> (\<forall>p\<in>set up_to_extraction. 5 \<le> p \<and> p \<le> 70)
       \<and> sorted from_documents \<and> (\<forall>p\<in>set from_documents. 65 \<le> p \<and> p \<le> 100))
   \<and> hd (progress st') = 5
   \<and> (res = Succeeded \<longrightarrow> last (progress st') = 100)
   \<and> (\<forall>e. res = Failed e \<longrightarrow> last (progress st') = 0)"
proof -
  assume run: "perform_export str_of cfg loaded (start fs) = (res, st')"
  obtain r st1 where body: "perform_export_try str_of cfg loaded (start fs) = (r, st1)"
    by (cases "perform_export_try str_of cfg loaded (start fs)")
  let ?tail = "case res of Succeeded \<Rightarrow> [] | Failed e \<Rightarrow> [0::rat]"
  from run body have st': "progress st' = progress st1 @ ?tail"
    by (cases r) (auto simp: perform_export_def update_status_def)
  from perform_export_try_appends [of "start fs" str_of cfg loaded] body
  obtain xs ys where parts: "progress st1 = xs @ ys"
    "sorted xs" "\<forall>p\<in>set xs. 5 \<le> p \<and> p \<le> 70"
    "sorted ys" "\<forall>p\<in>set ys. 65 \<le> p \<and> p \<le> 100"
    by (auto simp: appends_def start_def)
  have tail: "\<forall>p\<in>set ?tail. 0 \<le> p \<and> p \<le> 100"
    by (cases res) simp_all
  have bounded: "\<forall>p\<in>set (progress st'). 0 \<le> p \<and> p \<le> 100"
    unfolding st' parts(1) using parts(3,5) tail by fastforce
  have split: "\<exists>up_to_extraction from_documents.
         progress st' = up_to_extraction @ from_documents @ ?tail
       \<and> sorted up_to_extraction \<and> (\<forall>p\<in>set up_to_extraction. 5 \<le> p \<and> p \<le> 70)
       \<and> sorted from_documents \<and> (\<forall>p\<in>set from_documents. 65 \<le> p \<and> p \<le> 100)"
    using st' parts by (intro exI [of _ xs] exI [of _ ys]) simp
  from perform_export_try_first [of str_of cfg loaded "start fs"] body
  obtain zs where "progress st1 = 5 # zs"
    by (auto simp: start_def)
  with st' have first: "hd (progress st') = 5"
    by simp
  have succeeded: "last (progress st') = 100" if "res = Succeeded"
  proof -
    from that run body have "r = Inr ()"
      by (cases r) (auto simp: perform_export_def)
    with perform_export_try_last [of str_of cfg loaded "start fs"] body
    obtain ws where "progress st1 = ws @ [100]"
      by auto
    with st' that show ?thesis
      by simp
  qed
  have failed: "last (progress st') = 0" if "res = Failed e" for e
    using st' that by simp
  from bounded split first succeeded failed show ?thesis
    by blast
qed

text \<open>The theorem at the run over the three example records, which succeeds, and at a run
  whose input is not an array, which fails.\<close>

theorem progress_of_run_witness:
  "perform_export (\<lambda>v. []) example_config (Inr (JArr [daniel_bot, alpha_bot, beta_bot]))
       (start Map.empty)
     = (Succeeded, snd (perform_export (\<lambda>v. []) example_config
          (Inr (JArr [daniel_bot, alpha_bot, beta_bot])) (start Map.empty)))
   \<and> last (progress (snd (perform_export (\<lambda>v. []) example_config
          (Inr (JArr [daniel_bot, alpha_bot, beta_bot])) (start Map.empty)))) = 100
   \<and> hd (progress (snd (perform_export (\<lambda>v. []) example_config
          (Inr (JArr [daniel_bot, alpha_bot, beta_bot])) (start Map.empty)))) = 5
   \<and> list_all (\<lambda>p. 0 \<le> p \<and> p \<le> 100)
        (progress (snd (perform_export (\<lambda>v. []) example_config
          (Inr (JArr [daniel_bot, alpha_bot, beta_bot])) (start Map.empty))))
   \<and> perform_export (\<lambda>v. []) example_config (Inr (JObj [])) (start Map.empty)
     = (Failed (ValueError ''Expected a JSON array, but got dict''),
        snd (perform_export (\<lambda>v. []) example_config (Inr (JObj [])) (start Map.empty)))
   \<and> last (progress (snd (perform_export (\<lambda>v. []) example_config (Inr (JObj []))
          (start Map.empty)))) = 0"
proof -
  let ?good = "perform_export (\<lambda>v. []) example_config
      (Inr (JArr [daniel_bot, alpha_bot, beta_bot])) (start Map.empty)"
  let ?bad = "perform_export (\<lambda>v. []) example_config (Inr (JObj [])) (start Map.empty)"
  have "fst ?good = Succeeded"
    by code_simp
  then have good: "?good = (Succeeded, snd ?good)"
    by (simp add: prod_eq_iff)
  have "fst ?bad = Failed (ValueError ''Expected a JSON array, but got dict'')"
    by code_simp
  then have bad: "?bad = (Failed (ValueError ''Expected a JSON array, but got dict''), snd ?bad)"
    by (simp add: prod_eq_iff)
  from progress_of_run [OF good] progress_of_run [OF bad] good bad show ?thesis
    by (simp add: list_all_iff)
qed

section \<open>The XML tree of an item\<close>

lemma split_char_no_sep: "sep \<notin> set s \<Longrightarrow> split_char sep s = [s]"
  by (induction s) auto

lemma add_field_eq:
  "add_field str_of model_elem (key, v)
     = add_nested (butlast (split_char CHR ''.'' key))
         (Element (last (split_char CHR ''.'' key)) [Text (text_of str_of v)]) model_elem"
  by (simp add: add_field_def Let_def split_char_no_sep)

lemma find_child_Some:
  "find_child part children = Some i \<Longrightarrow>
     i < length children \<and> nodeName (children ! i) = part"
proof (induction children arbitrary: i)
  case Nil
  then show ?case by simp
next
  case (Cons c children)
  then show ?case
    by (cases "nodeName c = part") auto
qed

lemma find_child_None:
  "find_child part children = None \<longleftrightarrow> (\<forall>c\<in>set children. nodeName c \<noteq> part)"
  by (induction children) auto

lemma find_child_append:
  "find_child part (children @ [c]) =
     (case find_child part children of
        Some i \<Rightarrow> Some i
      | None \<Rightarrow> if nodeName c = part then Some (length children) else None)"
  by (induction children) (auto split: option.splits)

lemma find_child_update:
  "i < length children \<Longrightarrow> nodeName c = nodeName (children ! i) \<Longrightarrow>
     find_child part (children[i := c]) = find_child part children"
proof (induction children arbitrary: i)
  case Nil
  then show ?case by simp
next
  case (Cons d children)
  then show ?case
    by (cases i) auto
qed

lemma add_nested_fresh:
  "\<exists>new_elem. add_nested parts field_elem (Element part []) = Inr new_elem"
proof (induction parts arbitrary: part)
  case Nil
  then show ?case by simp
next
  case (Cons p parts)
  from Cons [of p] show ?case
    by auto
qed

lemma add_nested_Text: "add_nested parts field_elem (Text s) = Inl HierarchyRequestErr"
proof (cases parts)
  case Nil
  then show ?thesis by simp
next
  case (Cons part rest)
  obtain new_elem where "add_nested rest field_elem (Element part []) = Inr new_elem"
    using add_nested_fresh by blast
  with Cons show ?thesis by simp
qed

lemma add_nested_Element:
  "add_nested parts field_elem current = Inr current' \<Longrightarrow>
     \<exists>tag children children'. current = Element tag children \<and> current' = Element tag children'"
proof (cases current)
  case (Element tag children)
  assume "add_nested parts field_elem current = Inr current'"
  with Element show ?thesis
    by (cases parts) (auto split: option.splits sum.splits)
next
  case (Text s)
  assume "add_nested parts field_elem current = Inr current'"
  with Text show ?thesis
    by (simp add: add_nested_Text)
qed

lemma add_nested_nodeName:
  "add_nested parts field_elem current = Inr current' \<Longrightarrow> nodeName current' = nodeName current"
  using add_nested_Element by fastforce

lemma is_leaf_of_append:
  "is_leaf_of tag txt (Element tag' children) \<Longrightarrow>
     is_leaf_of tag txt (Element tag' (children @ [c]))"
proof (cases children)
  case Nil
  assume "is_leaf_of tag txt (Element tag' children)"
  with Nil show ?thesis by simp
next
  case (Cons first rest)
  assume "is_leaf_of tag txt (Element tag' children)"
  with Cons show ?thesis
    by (cases first) simp_all
qed

lemma is_leaf_of_kept:
  assumes "is_leaf_of tag txt c" "add_nested parts field_elem c = Inr c'"
  shows "is_leaf_of tag txt c'"
proof -
  from assms(1) obtain others where c: "c = Element tag (Text txt # others)"
    by (cases "(tag, txt, c)" rule: is_leaf_of.cases) auto
  show ?thesis
  proof (cases parts)
    case Nil
    with assms(2) c show ?thesis by auto
  next
    case (Cons part rest)
    show ?thesis
    proof (cases "find_child part (Text txt # others)")
      case None
      with assms(2) c Cons show ?thesis
        by (auto split: sum.splits)
    next
      case (Some i)
      show ?thesis
      proof (cases i)
        case 0
        with Some assms(2) c Cons show ?thesis
          by (simp add: add_nested_Text)
      next
        case (Suc j)
        with Some assms(2) c Cons show ?thesis
          by (auto split: sum.splits)
      qed
    qed
  qed
qed

lemma has_leaf_appendChild:
  "has_leaf (Element t children) pre tag txt \<Longrightarrow>
     has_leaf (Element t (children @ [c])) pre tag txt"
proof (cases pre)
  case Nil
  assume "has_leaf (Element t children) pre tag txt"
  with Nil show ?thesis by simp
next
  case (Cons p ps)
  assume h: "has_leaf (Element t children) pre tag txt"
  with Cons obtain i where i: "find_child p children = Some i"
    by (auto split: option.splits)
  with find_child_Some [OF i] h Cons show ?thesis
    by (simp add: find_child_append nth_append)
qed

lemma has_leaf_kept:
  "add_nested parts field_elem n = Inr n' \<Longrightarrow> has_leaf n pre tag txt \<Longrightarrow>
     has_leaf n' pre tag txt"
proof (induction parts arbitrary: n n' pre)
  case Nil
  then show ?case
    by (cases n) (auto intro: has_leaf_appendChild)
next
  case (Cons part parts)
  from Cons.prems(1) obtain t children where n: "n = Element t children"
    using add_nested_Element by blast
  show ?case
  proof (cases "find_child part children")
    case None
    with Cons.prems n show ?thesis
      by (auto split: sum.splits intro: has_leaf_appendChild)
  next
    case (Some j)
    with Cons.prems(1) n obtain existing where
      e: "add_nested parts field_elem (children ! j) = Inr existing"
      and n': "n' = Element t (children[j := existing])"
      by (auto split: sum.splits)
    from find_child_Some [OF Some] have j: "j < length children" ..
    from add_nested_nodeName [OF e] have name: "nodeName existing = nodeName (children ! j)" .
    show ?thesis
    proof (cases pre)
      case Nil
      with Cons.prems(2) n obtain c where c: "c \<in> set children" "is_leaf_of tag txt c"
        by (auto simp: list_ex_iff)
      then obtain k where k: "k < length children" "children ! k = c"
        by (auto simp: in_set_conv_nth)
      have "is_leaf_of tag txt (children[j := existing] ! k)"
      proof (cases "k = j")
        case True
        with k c(2) e j show ?thesis
          by (auto intro: is_leaf_of_kept)
      next
        case False
        with k c(2) show ?thesis by simp
      qed
      with k(1) have "list_ex (is_leaf_of tag txt) (children[j := existing])"
        unfolding list_ex_iff by (metis length_list_update nth_mem)
      with Nil n' show ?thesis by simp
    next
      case pre: (Cons p ps)
      with Cons.prems(2) n obtain i where i: "find_child p children = Some i"
        and h: "has_leaf (children ! i) ps tag txt"
        by (auto split: option.splits)
      from find_child_Some [OF i] have il: "i < length children" ..
      have "has_leaf (children[j := existing] ! i) ps tag txt"
      proof (cases "i = j")
        case True
        with Cons.IH [OF e] h j show ?thesis by simp
      next
        case False
        with h show ?thesis by simp
      qed
      with pre n' i j name show ?thesis
        by (simp add: find_child_update)
    qed
  qed
qed

lemma has_leaf_added:
  "add_nested pre (Element tag [Text txt]) n = Inr n' \<Longrightarrow> has_leaf n' pre tag txt"
proof (induction pre arbitrary: n n')
  case Nil
  then show ?case
    by (cases n) auto
next
  case (Cons part parts)
  from Cons.prems obtain t children where n: "n = Element t children"
    using add_nested_Element by blast
  show ?case
  proof (cases "find_child part children")
    case None
    with Cons.prems n obtain new_elem where
      new: "add_nested parts (Element tag [Text txt]) (Element part []) = Inr new_elem"
      and n': "n' = Element t (children @ [new_elem])"
      by (auto split: sum.splits)
    from add_nested_nodeName [OF new] have "nodeName new_elem = part"
      by simp
    with None n' Cons.IH [OF new] show ?thesis
      by (simp add: find_child_append)
  next
    case (Some j)
    with Cons.prems n obtain existing where
      e: "add_nested parts (Element tag [Text txt]) (children ! j) = Inr existing"
      and n': "n' = Element t (children[j := existing])"
      by (auto split: sum.splits)
    from find_child_Some [OF Some] have j: "j < length children" ..
    from add_nested_nodeName [OF e] have "nodeName existing = nodeName (children ! j)" .
    with Some n' j Cons.IH [OF e] show ?thesis
      by (simp add: find_child_update)
  qed
qed

lemma has_leaf_prefix:
  "has_leaf n (q @ r) tag txt \<Longrightarrow> \<exists>e. descend n q = Some e \<and> has_leaf e r tag txt"
  by (induction q arbitrary: n) (auto split: option.splits)

lemma add_fields_leaves:
  "add_fields str_of m it = Inr m' \<Longrightarrow>
     (\<forall>kv\<in>set it. has_leaf m' (butlast (split_char CHR ''.'' (fst kv)))
                     (last (split_char CHR ''.'' (fst kv))) (text_of str_of (snd kv)))
   \<and> (\<forall>pre tag txt. has_leaf m pre tag txt \<longrightarrow> has_leaf m' pre tag txt)"
proof (induction it arbitrary: m)
  case Nil
  then show ?case by simp
next
  case (Cons kv it)
  obtain key v where kv: "kv = (key, v)"
    by (cases kv)
  from Cons.prems kv obtain m1 where
    step: "add_nested (butlast (split_char CHR ''.'' key))
             (Element (last (split_char CHR ''.'' key)) [Text (text_of str_of v)]) m = Inr m1"
    and rest: "add_fields str_of m1 it = Inr m'"
    by (auto simp: add_field_eq split: sum.splits)
  from Cons.IH [OF rest] have
    later: "\<forall>kv\<in>set it. has_leaf m' (butlast (split_char CHR ''.'' (fst kv)))
                     (last (split_char CHR ''.'' (fst kv))) (text_of str_of (snd kv))"
    and keep: "\<And>pre tag txt. has_leaf m1 pre tag txt \<Longrightarrow> has_leaf m' pre tag txt"
    by blast+
  from has_leaf_added [OF step] keep have
    "has_leaf m' (butlast (split_char CHR ''.'' key))
       (last (split_char CHR ''.'' key)) (text_of str_of v)"
    by blast
  moreover have "has_leaf m' pre tag leaf_text" if "has_leaf m pre tag leaf_text"
    for pre tag leaf_text
    using has_leaf_kept [OF step that] keep by blast
  ultimately show ?case
    using later kv by simp
qed

lemma no_duplicates_Element:
  "no_duplicates (Element t children) \<longleftrightarrow>
     (\<forall>c\<in>set children. no_duplicates c)
     \<and> (\<forall>i<length children.
            find_child (nodeName (children ! i)) children = Some i \<or> pure_leaf (children ! i))"
  by (auto simp: list_all_iff)

declare no_duplicates.simps(2) [simp del]

lemma no_duplicates_append:
  assumes "no_duplicates (Element t children)" "no_duplicates c"
    and "find_child (nodeName c) children = None \<or> pure_leaf c"
  shows "no_duplicates (Element t (children @ [c]))"
proof -
  have "find_child (nodeName ((children @ [c]) ! i)) (children @ [c]) = Some i
      \<or> pure_leaf ((children @ [c]) ! i)"
    if "i < length (children @ [c])" for i
  proof (cases "i < length children")
    case True
    with assms(1) have "find_child (nodeName (children ! i)) children = Some i
        \<or> pure_leaf (children ! i)"
      by (simp add: no_duplicates_Element)
    with True show ?thesis
      by (auto simp: nth_append find_child_append)
  next
    case False
    with that have "i = length children"
      by simp
    with assms(3) show ?thesis
      by (auto simp: find_child_append)
  qed
  with assms(1,2) show ?thesis
    unfolding no_duplicates_Element by auto
qed

lemma no_duplicates_update:
  assumes "no_duplicates (Element t children)" "find_child part children = Some j"
    and "no_duplicates c" "nodeName c = nodeName (children ! j)"
  shows "no_duplicates (Element t (children[j := c]))"
proof -
  from find_child_Some [OF assms(2)] have j: "j < length children"
    and name: "nodeName (children ! j) = part"
    by simp_all
  have "find_child (nodeName (children[j := c] ! i)) (children[j := c]) = Some i
      \<or> pure_leaf (children[j := c] ! i)"
    if "i < length (children[j := c])" for i
  proof (cases "i = j")
    case True
    with j assms(2,4) name show ?thesis
      by (simp add: find_child_update)
  next
    case False
    from that assms(1) have "find_child (nodeName (children ! i)) children = Some i
        \<or> pure_leaf (children ! i)"
      by (simp add: no_duplicates_Element)
    with False j assms(4) show ?thesis
      by (simp add: find_child_update)
  qed
  moreover have "\<forall>d\<in>set (children[j := c]). no_duplicates d"
    using assms(1,3) set_update_subset_insert [of children j c]
    by (auto simp: no_duplicates_Element)
  ultimately show ?thesis
    unfolding no_duplicates_Element by blast
qed

lemma no_duplicates_leaf: "no_duplicates (Element tag [Text s])"
  by (simp add: no_duplicates_Element)

lemma no_duplicates_empty: "no_duplicates (Element tag [])"
  by (simp add: no_duplicates_Element)

lemma no_duplicates_kept:
  "add_nested parts (Element tag [Text s]) n = Inr n' \<Longrightarrow> no_duplicates n \<Longrightarrow>
     no_duplicates n'"
proof (induction parts arbitrary: n n')
  case Nil
  then show ?case
    by (cases n) (auto intro!: no_duplicates_append no_duplicates_leaf)
next
  case (Cons part parts)
  from Cons.prems(1) obtain t children where n: "n = Element t children"
    using add_nested_Element by blast
  show ?case
  proof (cases "find_child part children")
    case None
    with Cons.prems(1) n obtain new_elem where
      new: "add_nested parts (Element tag [Text s]) (Element part []) = Inr new_elem"
      and n': "n' = Element t (children @ [new_elem])"
      by (auto split: sum.splits)
    from add_nested_nodeName [OF new] have "nodeName new_elem = part"
      by simp
    moreover from Cons.IH [OF new no_duplicates_empty] have "no_duplicates new_elem" .
    ultimately show ?thesis
      using None Cons.prems(2) n n' by (auto intro!: no_duplicates_append)
  next
    case (Some j)
    with Cons.prems(1) n obtain existing where
      e: "add_nested parts (Element tag [Text s]) (children ! j) = Inr existing"
      and n': "n' = Element t (children[j := existing])"
      by (auto split: sum.splits)
    from find_child_Some [OF Some] have j: "j < length children" ..
    with Cons.prems(2) n have "no_duplicates (children ! j)"
      by (simp add: no_duplicates_Element)
    from Cons.IH [OF e this] add_nested_nodeName [OF e] Some Cons.prems(2) n n'
    show ?thesis
      by (auto intro: no_duplicates_update)
  qed
qed

lemma add_fields_no_duplicates:
  "add_fields str_of m it = Inr m' \<Longrightarrow> no_duplicates m \<Longrightarrow> no_duplicates m'"
proof (induction it arbitrary: m)
  case Nil
  then show ?case by simp
next
  case (Cons kv it)
  obtain key v where kv: "kv = (key, v)"
    by (cases kv)
  from Cons.prems(1) kv obtain m1 where
    step: "add_nested (butlast (split_char CHR ''.'' key))
             (Element (last (split_char CHR ''.'' key)) [Text (text_of str_of v)]) m = Inr m1"
    and rest: "add_fields str_of m1 it = Inr m'"
    by (auto simp: add_field_eq split: sum.splits)
  from no_duplicates_kept [OF step Cons.prems(2)] Cons.IH [OF rest] show ?case
    by simp
qed

lemma add_fields_nodeName:
  "add_fields str_of m it = Inr m' \<Longrightarrow> nodeName m' = nodeName m"
proof (induction it arbitrary: m)
  case Nil
  then show ?case by simp
next
  case (Cons kv it)
  obtain key v where kv: "kv = (key, v)"
    by (cases kv)
  from Cons.prems kv obtain m1 where
    step: "add_nested (butlast (split_char CHR ''.'' key))
             (Element (last (split_char CHR ''.'' key)) [Text (text_of str_of v)]) m = Inr m1"
    and rest: "add_fields str_of m1 it = Inr m'"
    by (auto simp: add_field_eq split: sum.splits)
  from add_nested_nodeName [OF step] Cons.IH [OF rest] show ?case
    by simp
qed

lemma add_nested_total:
  "''#text'' \<notin> set parts \<Longrightarrow> \<exists>n'. add_nested parts field_elem (Element t children) = Inr n'"
proof (induction parts arbitrary: t children)
  case Nil
  then show ?case by simp
next
  case (Cons part parts)
  show ?case
  proof (cases "find_child part children")
    case None
    with add_nested_fresh [of parts field_elem part] show ?thesis
      by auto
  next
    case (Some j)
    from find_child_Some [OF Some] Cons.prems obtain t' children' where
      "children ! j = Element t' children'"
      by (cases "children ! j") auto
    with Cons.IH [of t' children'] Cons.prems Some show ?thesis
      by auto
  qed
qed

lemma add_fields_total:
  "\<forall>kv\<in>set it. ''#text'' \<notin> set (butlast (split_char CHR ''.'' (fst kv))) \<Longrightarrow>
     \<exists>m'. add_fields str_of (Element t children) it = Inr m'"
proof (induction it arbitrary: t children)
  case Nil
  then show ?case by simp
next
  case (Cons kv it)
  obtain key v where kv: "kv = (key, v)"
    by (cases kv)
  from Cons.prems kv have "''#text'' \<notin> set (butlast (split_char CHR ''.'' key))"
    by simp
  from add_nested_total [OF this] obtain m1 where
    step: "add_nested (butlast (split_char CHR ''.'' key))
             (Element (last (split_char CHR ''.'' key)) [Text (text_of str_of v)])
             (Element t children) = Inr m1"
    by blast
  from add_nested_Element [OF step] obtain children1 where "m1 = Element t children1"
    by auto
  with Cons.IH [of t children1] Cons.prems step kv show ?case
    by (auto simp: add_field_eq)
qed

lemma field_catalog_segments:
  "list_all (\<lambda>key. ''#text'' \<notin> set (butlast (split_char CHR ''.'' key))) field_catalog"
  by code_simp

lemma extract_fields_keys:
  "extract_fields rec selected acc = Inr it \<Longrightarrow> fst ` set it = set selected \<union> fst ` set acc"
proof (induction selected arbitrary: acc)
  case Nil
  then show ?case by simp
next
  case (Cons field selected)
  from Cons.prems obtain v where
    "extract_fields rec selected (AList.update field v acc) = Inr it"
    by (auto split: sum.splits)
  from Cons.IH [OF this] show ?case
    by (auto simp: dom_update)
qed

lemma project_keys: "fst ` set (project selected rec) = set selected"
  using extract_fields_keys [of rec selected "[]" "project selected rec"]
    extract_item_project [of selected rec]
  by (simp add: extract_item_def)

text \<open>
  Claim C8.  For every projected item whose keys have no intermediate segment \<^verbatim>\<open>#text\<close>, and
  so for every projection onto fields of the catalogue, the XML renderer builds a \<^verbatim>\<open>model\<close>
  element.  For every key
  \<^verbatim>\<open>a.b.c\<close> of the item that element holds the nested elements \<^verbatim>\<open>a > b > c\<close>, and the text of
  \<^verbatim>\<open>c\<close> is the string form of the value, the empty string for \<^verbatim>\<open>None\<close>.  Whatever prefix
  \<open>q\<close> of the intermediate segments is taken, the rest of the nesting hangs under the one
  element \<open>descend m q\<close>, which depends on \<open>q\<close> only: keys that share a prefix share its
  elements.  At no nesting level is an intermediate element duplicated: a child that is not
  the first of its tag among its siblings is a leaf with nothing but its text.
\<close>

theorem xml_nested_elements:
  "((\<forall>kv\<in>set it. ''#text'' \<notin> set (butlast (split_char CHR ''.'' (fst kv))))
      \<longrightarrow> (\<exists>m. model_element str_of it = Inr m))
   \<and> (set selected \<subseteq> set field_catalog
      \<longrightarrow> (\<exists>m. model_element str_of (project selected rec) = Inr m))
   \<and> (\<forall>m. model_element str_of it = Inr m \<longrightarrow>
          nodeName m = ''model''
        \<and> (\<forall>kv\<in>set it. \<forall>q r. butlast (split_char CHR ''.'' (fst kv)) = q @ r \<longrightarrow>
              (\<exists>e. descend m q = Some e
                 \<and> has_leaf e r (last (split_char CHR ''.'' (fst kv)))
                      (text_of str_of (snd kv))))
        \<and> no_duplicates m)
   \<and> text_of str_of JNull = []
   \<and> text_of str_of (JStr s) = s
   \<and> (v \<noteq> JNull \<longrightarrow> text_of str_of v = py_str str_of v)"
proof -
  have total: "\<exists>m. model_element str_of it = Inr m"
    if "\<forall>kv\<in>set it. ''#text'' \<notin> set (butlast (split_char CHR ''.'' (fst kv)))"
    unfolding model_element_def using that by (rule add_fields_total)
  have catalogued: "\<exists>m. model_element str_of (project selected rec) = Inr m"
    if "set selected \<subseteq> set field_catalog"
  proof -
    have "''#text'' \<notin> set (butlast (split_char CHR ''.'' (fst kv)))"
      if "kv \<in> set (project selected rec)" for kv
    proof -
      from that have "fst kv \<in> set selected"
        using project_keys [of selected rec] by auto
      with \<open>set selected \<subseteq> set field_catalog\<close> field_catalog_segments show ?thesis
        by (auto simp: list_all_iff)
    qed
    then show ?thesis
      unfolding model_element_def by (intro add_fields_total) blast
  qed
  have built: "nodeName m = ''model''
        \<and> (\<forall>kv\<in>set it. \<forall>q r. butlast (split_char CHR ''.'' (fst kv)) = q @ r \<longrightarrow>
              (\<exists>e. descend m q = Some e
                 \<and> has_leaf e r (last (split_char CHR ''.'' (fst kv)))
                      (text_of str_of (snd kv))))
        \<and> no_duplicates m"
    if m: "model_element str_of it = Inr m" for m
  proof -
    from m have fields: "add_fields str_of (Element ''model'' []) it = Inr m"
      by (simp add: model_element_def)
    from add_fields_nodeName [OF fields] have "nodeName m = ''model''"
      by simp
    moreover from add_fields_no_duplicates [OF fields no_duplicates_empty]
    have "no_duplicates m" .
    moreover from add_fields_leaves [OF fields]
    have "\<forall>kv\<in>set it. has_leaf m (butlast (split_char CHR ''.'' (fst kv)))
                     (last (split_char CHR ''.'' (fst kv))) (text_of str_of (snd kv))"
      by blast
    then have "\<forall>kv\<in>set it. \<forall>q r. butlast (split_char CHR ''.'' (fst kv)) = q @ r \<longrightarrow>
              (\<exists>e. descend m q = Some e
                 \<and> has_leaf e r (last (split_char CHR ''.'' (fst kv)))
                      (text_of str_of (snd kv)))"
      using has_leaf_prefix by metis
    ultimately show ?thesis
      by blast
  qed
  have "text_of str_of JNull = []" "text_of str_of (JStr s) = s"
    "v \<noteq> JNull \<longrightarrow> text_of str_of v = py_str str_of v"
    by (simp_all add: text_of_def py_str_def)
  with total catalogued built show ?thesis
    by blast
qed

text \<open>The theorem at an item with two keys under \<^verbatim>\<open>info.meta\<close> and a third under \<^verbatim>\<open>info\<close>:
  one \<^verbatim>\<open>info\<close> element and one \<^verbatim>\<open>meta\<close> element hold all three leaves.\<close>

theorem xml_nested_elements_witness:
  "list_all (\<lambda>kv. ''#text'' \<notin> set (butlast (split_char CHR ''.'' (fst kv)))) example_item
   \<and> model_element (\<lambda>v. ''4'') example_item = Inr example_model
   \<and> no_duplicates example_model
   \<and> descend example_model [''info'', ''meta'']
       = Some (Element ''meta'' [Element ''description'' [Text ''first''],
                                 Element ''tags'' [Text []]])
   \<and> has_leaf example_model [''info'', ''meta''] ''description'' ''first''
   \<and> has_leaf example_model [''info'', ''meta''] ''tags'' []
   \<and> has_leaf example_model [''info''] ''id'' ''4''"
proof -
  have keys: "list_all (\<lambda>kv. ''#text'' \<notin> set (butlast (split_char CHR ''.'' (fst kv))))
      example_item"
    by code_simp
  have built: "model_element (\<lambda>v. ''4'') example_item = Inr example_model"
    by code_simp
  have parts: "butlast (split_char CHR ''.'' ''info.meta.description'') = [] @ [''info'', ''meta'']"
    "last (split_char CHR ''.'' ''info.meta.description'') = ''description''"
    "butlast (split_char CHR ''.'' ''info.meta.tags'') = [] @ [''info'', ''meta'']"
    "last (split_char CHR ''.'' ''info.meta.tags'') = ''tags''"
    "butlast (split_char CHR ''.'' ''info.id'') = [] @ [''info'']"
    "last (split_char CHR ''.'' ''info.id'') = ''id''"
    by simp_all
  have members: "(''info.meta.description'', JStr ''first'') \<in> set example_item"
    "(''info.meta.tags'', JNull) \<in> set example_item"
    "(''info.id'', JInt 4) \<in> set example_item"
    by (simp_all add: example_item_def)
  have texts: "text_of (\<lambda>v. ''4'') (JStr ''first'') = ''first''"
    "text_of (\<lambda>v. ''4'') JNull = []" "text_of (\<lambda>v. ''4'') (JInt 4) = ''4''"
    by (simp_all add: text_of_def py_str_def)
  from xml_nested_elements [of example_item "\<lambda>v. ''4''"] built
  have dup: "no_duplicates example_model"
    and leaves: "\<And>kv q r. kv \<in> set example_item \<Longrightarrow>
        butlast (split_char CHR ''.'' (fst kv)) = q @ r \<Longrightarrow>
        \<exists>e. descend example_model q = Some e
           \<and> has_leaf e r (last (split_char CHR ''.'' (fst kv))) (text_of (\<lambda>v. ''4'') (snd kv))"
    by blast+
  from leaves [OF members(1), of "[]" "[''info'', ''meta'']"] parts(1,2) texts(1)
  have l1: "has_leaf example_model [''info'', ''meta''] ''description'' ''first''"
    by simp
  from leaves [OF members(2), of "[]" "[''info'', ''meta'']"] parts(3,4) texts(2)
  have l2: "has_leaf example_model [''info'', ''meta''] ''tags'' []"
    by simp
  from leaves [OF members(3), of "[]" "[''info'']"] parts(5,6) texts(3)
  have l3: "has_leaf example_model [''info''] ''id'' ''4''"
    by simp
  have d: "descend example_model [''info'', ''meta'']
       = Some (Element ''meta'' [Element ''description'' [Text ''first''],
                                 Element ''tags'' [Text []]])"
    by code_simp
  from keys built dup d l1 l2 l3 show ?thesis
    by simp
qed

section \<open>Order of the records in what is written\<close>






end
